theory Spec2Isabelle
  imports Complex_Main "HOL-Library.Sublist"
begin

section \<open>JavaScript strings\<close>

text \<open>
  A JavaScript string is a sequence of UTF-16 code units; \<open>length\<close>, indexing and the
  regular expressions of \<open>main.js\<close> (none has the \<open>u\<close> flag) all work on code units.
  A code unit is modelled as a natural number, so that the CJK ranges tested by
  \<open>isLikelyEnglishWord\<close> can be expressed.
\<close>

type_synonym jsstring = "nat list"

definition js :: "string \<Rightarrow> jsstring" where
  "js s = map of_char s"

definition cu :: "char \<Rightarrow> nat" where
  "cu c = of_char c"

text \<open>
  \<open>WhiteSpace\<close> and \<open>LineTerminator\<close> of ECMAScript: the code units removed by
  \<open>String.prototype.trim\<close>, which are also the ones the class \<open>\s\<close> matches.
\<close>

definition isSpace :: "nat \<Rightarrow> bool" where
  "isSpace c = ((9 \<le> c \<and> c \<le> 13) \<or> c = 32 \<or> c = 160 \<or> c = 5760 \<or> (8192 \<le> c \<and> c \<le> 8202)
     \<or> c = 8232 \<or> c = 8233 \<or> c = 8239 \<or> c = 8287 \<or> c = 12288 \<or> c = 65279)"

definition isUpperAZ :: "nat \<Rightarrow> bool" where
  "isUpperAZ c = (65 \<le> c \<and> c \<le> 90)"

definition isLowerAZ :: "nat \<Rightarrow> bool" where
  "isLowerAZ c = (97 \<le> c \<and> c \<le> 122)"

text \<open>The class \<open>[A-Za-z]\<close>.\<close>

definition isLetter :: "nat \<Rightarrow> bool" where
  "isLetter c = (isUpperAZ c \<or> isLowerAZ c)"

text \<open>The class \<open>[A-Za-z'-]\<close>: a letter, the apostrophe (39) or the hyphen (45).\<close>

definition isWordCh :: "nat \<Rightarrow> bool" where
  "isWordCh c = (isLetter c \<or> c = 39 \<or> c = 45)"

text \<open>The class \<open>[0-9_]\<close>.\<close>

definition isDigitUnderscore :: "nat \<Rightarrow> bool" where
  "isDigitUnderscore c = ((48 \<le> c \<and> c \<le> 57) \<or> c = 95)"

text \<open>The class of the code units 0x3040 to 0x30FF, 0x3400 to 0x9FFF and 0xAC00 to 0xD7AF.\<close>

definition isCJK :: "nat \<Rightarrow> bool" where
  "isCJK c = ((12352 \<le> c \<and> c \<le> 12543) \<or> (13312 \<le> c \<and> c \<le> 40959) \<or> (44032 \<le> c \<and> c \<le> 55215))"

text \<open>The class \<open>[^\s@]\<close>.\<close>

definition notSpaceAt :: "nat \<Rightarrow> bool" where
  "notSpaceAt c = (\<not> isSpace c \<and> c \<noteq> 64)"

definition trim :: "jsstring \<Rightarrow> jsstring" where
  "trim s = rev (dropWhile isSpace (rev (dropWhile isSpace s)))"

text \<open>
  \<open>String.prototype.toLowerCase\<close> on the code units \<open>A\<close> to \<open>Z\<close>. The program
  lower-cases only what its token pattern matched, which is made of ASCII letters, the
  apostrophe and the hyphen; the Unicode case mapping of other code units is not modelled.
\<close>

definition toLowerCU :: "nat \<Rightarrow> nat" where
  "toLowerCU c = (if isUpperAZ c then c + 32 else c)"

definition toLowerCase :: "jsstring \<Rightarrow> jsstring" where
  "toLowerCase s = map toLowerCU s"

text \<open>\<open>Array.prototype.join\<close> on an array of strings.\<close>

fun joinWith :: "jsstring \<Rightarrow> jsstring list \<Rightarrow> jsstring" where
  "joinWith sep [] = []"
| "joinWith sep [x] = x"
| "joinWith sep (x # y # ys) = x @ sep @ joinWith sep (y # ys)"

section \<open>Regular expressions\<close>

text \<open>
  The regular expressions of \<open>main.js\<close> are kept as data and run by a backtracking
  matcher that follows the ECMAScript pattern semantics: alternatives are tried left to
  right, quantifiers are greedy, and an iteration of a quantifier that consumes nothing is
  rejected. A matcher state is the rest of the input together with a flag telling whether
  the position is the start of the input (for \<open>^\<close>; no pattern has the \<open>m\<close> flag).
\<close>

datatype re =
    Eps
  | Bol
  | Eol
  | Cls "nat \<Rightarrow> bool"
  | Seq re re
  | Alt re re
  | Opt re
  | Star re

type_synonym mstate = "bool \<times> jsstring"

text \<open>
  \<open>iter f n st\<close>: the states reachable from \<open>st\<close> by at most \<open>n\<close> greedy iterations of
  the matcher \<open>f\<close>, most iterations first. Each iteration must consume input, so
  \<open>length (snd st)\<close> iterations are always enough.
\<close>

fun iter :: "(mstate \<Rightarrow> mstate list) \<Rightarrow> nat \<Rightarrow> mstate \<Rightarrow> mstate list" where
  "iter f 0 st = [st]"
| "iter f (Suc n) st =
     concat (map (iter f n) (filter (\<lambda>st'. length (snd st') < length (snd st)) (f st))) @ [st]"

text \<open>
  \<open>ms r st\<close>: the states after a match of \<open>r\<close> at \<open>st\<close>, in the order in which
  backtracking tries them. The first one is the match that \<open>exec\<close> reports.
\<close>

fun ms :: "re \<Rightarrow> mstate \<Rightarrow> mstate list" where
  "ms Eps st = [st]"
| "ms Bol st = (if fst st then [st] else [])"
| "ms Eol st = (if snd st = [] then [st] else [])"
| "ms (Cls P) st = (case snd st of [] \<Rightarrow> [] | c # cs \<Rightarrow> if P c then [(False, cs)] else [])"
| "ms (Seq r1 r2) st = concat (map (ms r2) (ms r1 st))"
| "ms (Alt r1 r2) st = ms r1 st @ ms r2 st"
| "ms (Opt r) st = filter (\<lambda>st'. length (snd st') < length (snd st)) (ms r st) @ [st]"
| "ms (Star r) st = iter (ms r) (length (snd st)) st"

text \<open>\<open>r+\<close> is \<open>rr*\<close>.\<close>

definition Plus :: "re \<Rightarrow> re" where
  "Plus r = Seq r (Star r)"

fun seqs :: "re list \<Rightarrow> re" where
  "seqs [] = Eps"
| "seqs [r] = r"
| "seqs (r # rs) = Seq r (seqs rs)"

text \<open>A pattern character, and a literal run of pattern characters.\<close>

definition lit :: "char \<Rightarrow> re" where
  "lit c = Cls (\<lambda>x. x = cu c)"

definition lits :: "string \<Rightarrow> re" where
  "lits s = seqs (map lit s)"

text \<open>
  A pattern character under the \<open>i\<close> flag. Without the \<open>u\<close> flag both sides are
  canonicalised by upper-casing, and a code unit from 128 on is never canonicalised to an
  ASCII one; so an ASCII pattern letter matches exactly its two ASCII cases.
\<close>

definition canonASCII :: "nat \<Rightarrow> nat" where
  "canonASCII c = (if isLowerAZ c then c - 32 else c)"

definition liti :: "char \<Rightarrow> re" where
  "liti c = Cls (\<lambda>x. canonASCII x = canonASCII (cu c))"

definition litsi :: "string \<Rightarrow> re" where
  "litsi s = seqs (map liti s)"

text \<open>
  \<open>RegExp.prototype.test\<close> on a pattern without the \<open>g\<close> flag: the matcher is tried at
  every position from the start of the input, the end included.
\<close>

fun search :: "re \<Rightarrow> bool \<Rightarrow> jsstring \<Rightarrow> bool" where
  "search r b [] = (ms r (b, []) \<noteq> [])"
| "search r b (c # cs) = (ms r (b, c # cs) \<noteq> [] \<or> search r False cs)"

definition test :: "re \<Rightarrow> jsstring \<Rightarrow> bool" where
  "test r s = search r True s"

text \<open>
  \<open>String.prototype.match\<close> with a \<open>g\<close> pattern: the matched substrings from left to
  right. After a match the search goes on where the match ended, one code unit further
  when the match was empty; where nothing matches it goes on at the next code unit.
  \<open>matchLen\<close> is the length of the match found at one position.
\<close>

definition matchLen :: "re \<Rightarrow> mstate \<Rightarrow> nat option" where
  "matchLen r st =
     (case ms r st of [] \<Rightarrow> None | st' # _ \<Rightarrow> Some (length (snd st) - length (snd st')))"

function matchAll :: "re \<Rightarrow> bool \<Rightarrow> jsstring \<Rightarrow> jsstring list" where
  "matchAll r b [] = (case matchLen r (b, []) of None \<Rightarrow> [] | Some n \<Rightarrow> [[]])"
| "matchAll r b (c # cs) =
     (case matchLen r (b, c # cs) of
        None \<Rightarrow> matchAll r False cs
      | Some n \<Rightarrow>
          if n = 0 then [] # matchAll r False cs
          else take n (c # cs) # matchAll r False (drop n (c # cs)))"
  by pat_completeness auto
termination
  by (relation "measure (\<lambda>(r, b, s). length s)") auto

section \<open>The strict word predicate\<close>

text \<open>\<open>/^[^\s@]+@[^\s@]+\.[^\s@]+$/i\<close>\<close>

definition reEmail :: re where
  "reEmail = seqs [Bol, Plus (Cls notSpaceAt), lit CHR ''@'', Plus (Cls notSpaceAt),
                   lit CHR ''.'', Plus (Cls notSpaceAt), Eol]"

text \<open>\<open>/^(https?:\/\/|www\.)|:\/\//i\<close>\<close>

definition reUrl :: re where
  "reUrl = Alt (Seq Bol (Alt (seqs [litsi ''http'', Opt (liti CHR ''s''), lits ''://''])
                             (Seq (litsi ''www'') (lit CHR ''.''))))
               (lits ''://'')"

text \<open>\<open>/\s/\<close>, the CJK class and \<open>/[0-9_]/\<close>\<close>

definition reSpace :: re where
  "reSpace = Cls isSpace"

definition reCJK :: re where
  "reCJK = Cls isCJK"

definition reDigitUnderscore :: re where
  "reDigitUnderscore = Cls isDigitUnderscore"

text \<open>\<open>[A-Za-z](?:[A-Za-z'-]*[A-Za-z])?\<close>, the token pattern, and its anchored form\<close>

definition reToken :: re where
  "reToken = Seq (Cls isLetter) (Opt (Seq (Star (Cls isWordCh)) (Cls isLetter)))"

definition reWord :: re where
  "reWord = seqs [Bol, reToken, Eol]"

text \<open>\<open>/--|''/\<close>\<close>

definition reDoubled :: re where
  "reDoubled = Alt (lits ''--'') (Seq (lit (CHR 0x27)) (lit (CHR 0x27)))"

text \<open>
  \<open>isLikelyEnglishWord(text)\<close> for a string argument (every other type of argument is
  refused by the first line; the empty string is falsy).
\<close>

definition isLikelyEnglishWord :: "jsstring \<Rightarrow> bool" where
  "isLikelyEnglishWord text =
     (if text = [] then False
      else let s = trim text in
        if length s = 0 \<or> length s > 64 then False
        else if test reEmail s then False
        else if test reUrl s then False
        else if test reSpace s then False
        else if test reCJK s then False
        else if test reDigitUnderscore s then False
        else if \<not> test reWord s then False
        else if test reDoubled s then False
        else True)"

text \<open>\<open>normalizeWord(text)\<close> for a string argument.\<close>

definition normalizeWord :: "jsstring \<Rightarrow> jsstring" where
  "normalizeWord text = toLowerCase (trim text)"

section \<open>The local fallback tokenizer\<close>

text \<open>
  The loop of \<open>localExtractWords\<close> over the rough matches; \<open>seen\<close> is the object used as
  a set (\<open>seen[w] = 1\<close>), \<open>out\<close> the array built by \<open>push\<close>.
\<close>

fun localExtractLoop :: "jsstring list \<Rightarrow> (jsstring \<rightharpoonup> nat) \<Rightarrow> jsstring list \<Rightarrow> jsstring list" where
  "localExtractLoop [] seen out = out"
| "localExtractLoop (tok # rough) seen out =
     (let w = normalizeWord tok in
      if w = [] then localExtractLoop rough seen out
      else if \<not> isLikelyEnglishWord w then localExtractLoop rough seen out
      else if seen w \<noteq> None then localExtractLoop rough seen out
      else localExtractLoop rough (seen(w \<mapsto> 1)) (out @ [w]))"

definition localExtractWords :: "jsstring \<Rightarrow> jsstring list" where
  "localExtractWords text = localExtractLoop (matchAll reToken True text) Map.empty []"

section \<open>Stable deduplication and truncation\<close>

text \<open>
  The loop of \<open>uniqueStable\<close>. Its callers pass arrays of strings, so the property key
  \<open>seen[x]\<close> is the element itself.
\<close>

fun uniqueStableLoop :: "jsstring list \<Rightarrow> (jsstring \<rightharpoonup> nat) \<Rightarrow> jsstring list \<Rightarrow> jsstring list" where
  "uniqueStableLoop [] seen out = out"
| "uniqueStableLoop (x # arr) seen out =
     (if seen x \<noteq> None then uniqueStableLoop arr seen out
      else uniqueStableLoop arr (seen(x \<mapsto> 1)) (out @ [x]))"

definition uniqueStable :: "jsstring list \<Rightarrow> jsstring list" where
  "uniqueStable arr = uniqueStableLoop arr Map.empty []"

text \<open>
  \<open>arr.slice(0, end)\<close> for an integer \<open>end\<close>: a negative \<open>end\<close> counts from the end of
  the array.
\<close>

definition slice0 :: "'a list \<Rightarrow> int \<Rightarrow> 'a list" where
  "slice0 arr e =
     (let len = int (length arr);
          final = (if e < 0 then max (len + e) 0 else min e len)
      in take (nat final) arr)"

section \<open>JSON values\<close>

text \<open>
  The values \<open>JSON.parse\<close> and the host's response decoding produce. An object is the
  list of its properties (each key once). \<open>undefined\<close> is \<open>None\<close> of \<open>json option\<close>.
  A number is an integer \<open>JNum n\<close>, or \<open>JInf neg\<close>: the infinity that \<open>JSON.parse\<close> gives
  for a literal beyond the range of a double such as \<open>1e999\<close>, negative when \<open>neg\<close> holds.
  Finite numbers that are not integers are not modelled: in the functions below they
  behave as an integer other than 0 does (truthy, different from 0, a text with a digit).
\<close>

datatype json =
    JNull
  | JBool bool
  | JNum int
  | JInf bool
  | JStr jsstring
  | JArr "json list"
  | JObj "(jsstring \<times> json) list"

fun truthyJ :: "json \<Rightarrow> bool" where
  "truthyJ JNull = False"
| "truthyJ (JBool b) = b"
| "truthyJ (JNum n) = (n \<noteq> 0)"
| "truthyJ (JInf neg) = True"
| "truthyJ (JStr s) = (s \<noteq> [])"
| "truthyJ (JArr xs) = True"
| "truthyJ (JObj kvs) = True"

text \<open>\<open>a || b\<close> where \<open>a\<close> may be undefined.\<close>

definition orJ :: "json option \<Rightarrow> json \<Rightarrow> json" where
  "orJ a b = (case a of None \<Rightarrow> b | Some v \<Rightarrow> if truthyJ v then v else b)"

text \<open>
  \<open>v.key\<close> for the keys the program reads (none is \<open>length\<close> or an index): only an
  object has them.
\<close>

definition getP :: "json \<Rightarrow> string \<Rightarrow> json option" where
  "getP v k = (case v of JObj kvs \<Rightarrow> map_of kvs (js k) | _ \<Rightarrow> None)"

text \<open>\<open>String(n)\<close> for an integer.\<close>

fun digits :: "nat \<Rightarrow> jsstring" where
  "digits n = (if n < 10 then [48 + n] else digits (n div 10) @ [48 + n mod 10])"

declare digits.simps [simp del]

definition numberToString :: "int \<Rightarrow> jsstring" where
  "numberToString n = (if n < 0 then 45 # digits (nat (- n)) else digits (nat n))"

text \<open>
  \<open>String(v)\<close>; \<open>None\<close> where it throws a \<open>TypeError\<close>. An array is joined with
  commas, \<open>null\<close> elements giving the empty string. An object gives \<open>[object Object]\<close>
  through the inherited \<open>toString\<close>; when it has a property \<open>toString\<close> of its own (never
  a function in parsed JSON), neither that nor \<open>valueOf\<close> yields a primitive and the
  conversion throws.
\<close>

fun toStringJ :: "json \<Rightarrow> jsstring option" where
  "toStringJ JNull = Some (js ''null'')"
| "toStringJ (JBool b) = Some (if b then js ''true'' else js ''false'')"
| "toStringJ (JNum n) = Some (numberToString n)"
| "toStringJ (JInf neg) = Some (if neg then js ''-Infinity'' else js ''Infinity'')"
| "toStringJ (JStr s) = Some s"
| "toStringJ (JArr xs) =
     map_option (joinWith [44]) (those (map (\<lambda>x. if x = JNull then Some [] else toStringJ x) xs))"
| "toStringJ (JObj kvs) =
     (if map_of kvs (js ''toString'') \<noteq> None then None else Some (js ''[object Object]''))"

text \<open>\<open>String(v || "")\<close>\<close>

definition candidateString :: "json \<Rightarrow> jsstring option" where
  "candidateString v = (if truthyJ v then toStringJ v else Some [])"

section \<open>Configuration\<close>

text \<open>
  The options of \<open>$option\<close> read by the modelled functions. A text option is \<open>None\<close>
  when it is not set; a numeric option holds the value of \<open>Number($option.x)\<close>, an
  integer, and is \<open>None\<close> where that is \<open>NaN\<close>. Values that are not integers are not
  modelled.
\<close>

record options =
  volcano_api_key :: "jsstring option"
  volcano_endpoint :: "jsstring option"
  volcano_model :: "jsstring option"
  llm_words_max_add :: "int option"
  word_check_timeout_ms :: "int option"
  wordbook_id :: "jsstring option"

text \<open>Truthiness of a text option, and \<open>Number(x) || d\<close>.\<close>

definition truthyS :: "jsstring option \<Rightarrow> bool" where
  "truthyS x = (case x of None \<Rightarrow> False | Some s \<Rightarrow> s \<noteq> [])"

definition numberOr :: "int option \<Rightarrow> int \<Rightarrow> int" where
  "numberOr x d = (case x of None \<Rightarrow> d | Some n \<Rightarrow> if n = 0 then d else n)"

definition WORD_CHECK_TIMEOUT_MS :: "options \<Rightarrow> int" where
  "WORD_CHECK_TIMEOUT_MS opt = numberOr (word_check_timeout_ms opt) 50000"

definition WORD_CHECK_TIMEOUT_S :: "options \<Rightarrow> int" where
  "WORD_CHECK_TIMEOUT_S opt = max 1 \<lceil>real_of_int (WORD_CHECK_TIMEOUT_MS opt) / 50000\<rceil>"

text \<open>
  The conversion of the millisecond budget in the specification's words, to be compared
  with \<open>WORD_CHECK_TIMEOUT_S\<close>: the ceiling of the value divided by 1000, with a floor of
  one second.
\<close>

definition specTimeoutSeconds :: "int \<Rightarrow> int" where
  "specTimeoutSeconds msec = max 1 \<lceil>real_of_int msec / 1000\<rceil>"

section \<open>The host's HTTP primitive\<close>

text \<open>
  A request as handed to \<open>$http.request\<close>: method, URL, the \<open>words\<close> array of the body
  (empty where the body has none), the transport timeout in seconds, and whether a
  \<open>handler\<close> callback is set. Headers, the rest of the body and the cancellation token are
  not modelled.
\<close>

record request =
  req_method :: string
  req_url :: jsstring
  req_words :: "jsstring list"
  req_timeout :: int
  req_handler :: bool

text \<open>
  What the host delivers: the \<open>response\<close> object (\<open>statusCode\<close>, \<open>status\<close>, \<open>data\<close>)
  and the delivered value with its \<open>response\<close> and \<open>data\<close>. A missing property is
  \<open>None\<close>; headers are not modelled.
\<close>

record response_info =
  resp_statusCode :: "int option"
  resp_status :: "int option"
  resp_data :: "json option"

record http_result =
  res_response :: "response_info option"
  res_data :: "json option"

text \<open>
  A thrown or rejected value, as far as the program inspects it: \<open>null\<close>/\<open>undefined\<close>, a
  string, or any other value with its \<open>message\<close>, \<open>stack\<close>, \<open>response\<close> and \<open>res\<close>
  (string-typed \<open>message\<close> and \<open>stack\<close> only), together with the two texts
  \<open>errorToMessage\<close> obtains from \<open>JSON.stringify\<close>: of \<open>(resp && resp.data) || err.data\<close>
  and of the value itself (empty where \<open>JSON.stringify\<close> yields nothing or throws).
\<close>

record err_fields =
  err_message :: "jsstring option"
  err_stack :: "jsstring option"
  err_response :: "response_info option"
  err_res :: "response_info option"
  err_dataJSON :: jsstring
  err_rawJSON :: jsstring

datatype js_error = ErrNullish | ErrString jsstring | ErrValue err_fields

text \<open>The ways the promise of a request can end, and the ways a call of the primitive can.\<close>

datatype settled = Fulfils "http_result option" | Rejects js_error | NeverSettles

datatype call_result = ReturnsThenable settled | ReturnsOther | Throws js_error

datatype handler_result = CallsHandler "http_result option" | ThrowsH js_error | NeverCalls

text \<open>
  The host's behaviour on one exchange: what a call without handler does, and what a call
  with a handler does.
\<close>

record host =
  plain_call :: call_result
  handler_call :: handler_result

datatype 'a promise = Resolved 'a | Rejected js_error | Pending

text \<open>
  \<open>httpRequestP(opts)\<close>: the promise it returns and the calls of \<open>$http.request\<close> it
  makes. A thenable from the first call is returned as it is; otherwise the call is made
  again with a handler, and an exception of that call resolves the promise with
  \<open>{ __error: e }\<close>, a value without \<open>response\<close> and \<open>data\<close>.
\<close>

definition httpRequestP :: "host \<Rightarrow> request \<Rightarrow> (http_result option) promise \<times> request list" where
  "httpRequestP h opts =
     (case plain_call h of
        ReturnsThenable st \<Rightarrow>
          ((case st of Fulfils r \<Rightarrow> Resolved r | Rejects e \<Rightarrow> Rejected e | NeverSettles \<Rightarrow> Pending),
           [opts])
      | _ \<Rightarrow>
          ((case handler_call h of
              CallsHandler r \<Rightarrow> Resolved r
            | ThrowsH e \<Rightarrow> Resolved (Some \<lparr>res_response = None, res_data = None\<rparr>)
            | NeverCalls \<Rightarrow> Pending),
           [opts, opts\<lparr>req_handler := True\<rparr>]))"

section \<open>Error texts\<close>

text \<open>\<open>a || b\<close> on optional numbers, as in \<open>resp.statusCode || resp.status\<close>.\<close>

definition orNum :: "int option \<Rightarrow> int option \<Rightarrow> int option" where
  "orNum a b = (case a of None \<Rightarrow> b | Some n \<Rightarrow> if n = 0 then b else Some n)"

definition errorToMessage :: "js_error \<Rightarrow> jsstring" where
  "errorToMessage err =
     (case err of
        ErrNullish \<Rightarrow> js ''unknown''
      | ErrString s \<Rightarrow> s
      | ErrValue e \<Rightarrow>
          if truthyS (err_message e) then (case err_message e of Some m \<Rightarrow> m | None \<Rightarrow> [])
          else if truthyS (err_stack e) then (case err_stack e of Some m \<Rightarrow> m | None \<Rightarrow> [])
          else
            (let resp = (case err_response e of Some r \<Rightarrow> Some r | None \<Rightarrow> err_res e);
                 sc = (case resp of None \<Rightarrow> None
                       | Some r \<Rightarrow> (case orNum (resp_statusCode r) (resp_status r) of
                                      None \<Rightarrow> None | Some n \<Rightarrow> if n = 0 then None else Some n));
                 parts = (case sc of None \<Rightarrow> [] | Some n \<Rightarrow> [js ''statusCode='' @ numberToString n])
                       @ (if err_dataJSON e \<noteq> [] then [js ''data='' @ err_dataJSON e] else [])
                       @ (if err_rawJSON e \<noteq> [] then [js ''raw='' @ err_rawJSON e] else []);
                 joined = joinWith (js ''; '') parts
             in if joined \<noteq> [] then joined else js ''unknown''))"

section \<open>Extraction by the language model\<close>

text \<open>\<open>extractArkContent(resp)\<close>, given \<open>resp.data\<close>.\<close>

record ark_content =
  ark_text :: jsstring
  ark_finish_reason :: json

text \<open>The text a part of a multimodal content array contributes to \<open>buf\<close>.\<close>

definition partText :: "json \<Rightarrow> jsstring list" where
  "partText part =
     (if truthyJ part \<and> getP part ''type'' = Some (JStr (js ''text''))
      then (case getP part ''text'' of Some (JStr t) \<Rightarrow> [t] | _ \<Rightarrow> [])
      else [])"

definition extractArkContent :: "json option \<Rightarrow> ark_content" where
  "extractArkContent respData =
     (let dat = orJ respData (JObj []);
          choices = orJ (getP dat ''choices'') (JArr [])
      in case choices of
           JArr (c0 # rest) \<Rightarrow>
             (let ch0 = orJ (Some c0) (JObj []);
                  msg = orJ (getP ch0 ''message'') (JObj []);
                  fr = orJ (getP ch0 ''finish_reason'') (JStr [])
              in case getP msg ''content'' of
                   Some (JStr c) \<Rightarrow> \<lparr>ark_text = c, ark_finish_reason = fr\<rparr>
                 | Some (JArr parts) \<Rightarrow>
                     \<lparr>ark_text = concat (concat (map partText parts)), ark_finish_reason = fr\<rparr>
                 | _ \<Rightarrow>
                     (case getP msg ''reasoning_content'' of
                        Some (JStr r) \<Rightarrow> \<lparr>ark_text = r, ark_finish_reason = fr\<rparr>
                      | _ \<Rightarrow> \<lparr>ark_text = [], ark_finish_reason = fr\<rparr>))
         | _ \<Rightarrow>
             (case getP dat ''output_text'' of
                Some (JStr t) \<Rightarrow>
                  \<lparr>ark_text = t, ark_finish_reason = orJ (getP dat ''finish_reason'') (JStr [])\<rparr>
              | _ \<Rightarrow> \<lparr>ark_text = [], ark_finish_reason = JStr []\<rparr>))"

text \<open>
  The \<open>try\<close>/\<open>catch\<close> around \<open>JSON.parse(content)\<close>: \<open>parsed\<close> is the parse result,
  \<open>None\<close> when \<open>JSON.parse\<close> throws. The result is \<open>wordsToAdd\<close>.
\<close>

definition wordsToAddOf :: "json option \<Rightarrow> jsstring \<Rightarrow> json list" where
  "wordsToAddOf parsed content =
     (case parsed of
        None \<Rightarrow> map JStr (localExtractWords content)
      | Some (JArr xs) \<Rightarrow> xs
      | Some (JObj kvs) \<Rightarrow> (case getP (JObj kvs) ''add'' of Some (JArr ys) \<Rightarrow> ys | _ \<Rightarrow> [])
      | Some _ \<Rightarrow> [])"

text \<open>The loop that fills \<open>cleaned\<close>; \<open>None\<close> where \<open>String\<close> throws.\<close>

fun cleanLoop :: "json list \<Rightarrow> jsstring list \<Rightarrow> jsstring list option" where
  "cleanLoop [] cleaned = Some cleaned"
| "cleanLoop (x # xs) cleaned =
     (case candidateString x of
        None \<Rightarrow> None
      | Some w0 \<Rightarrow>
          if \<not> isLikelyEnglishWord (trim w0) then cleanLoop xs cleaned
          else cleanLoop xs (cleaned @ [trim w0]))"

text \<open>
  The extraction outcome. \<open>headers\<close> and \<open>durationMs\<close> are not modelled; a property the
  returned object does not have is \<open>None\<close>.
\<close>

record extraction =
  ok :: bool
  statusCode :: int
  words :: "jsstring list"
  data :: "json option"
  url :: "jsstring option"
  endpoint :: "jsstring option"
  model :: "jsstring option"
  errorMessage :: "jsstring option"

text \<open>\<open>(x && x.response && x.response.statusCode) || 0\<close>\<close>

definition statusOr0 :: "response_info option \<Rightarrow> int" where
  "statusOr0 r = (case r of None \<Rightarrow> 0 | Some i \<Rightarrow> (case resp_statusCode i of None \<Rightarrow> 0 | Some n \<Rightarrow> n))"

definition maxAdd :: "options \<Rightarrow> int" where
  "maxAdd opt = numberOr (llm_words_max_add opt) 200"

text \<open>
  The fulfilment handler of the request. \<open>JSON_parse\<close> is the host's \<open>JSON.parse\<close>,
  \<open>None\<close> where it throws a \<open>SyntaxError\<close>. The handler itself yields \<open>None\<close> where it
  throws, which is in the loop over the candidates only.
\<close>

definition contentOf :: "http_result option \<Rightarrow> jsstring" where
  "contentOf resp =
     trim (ark_text (extractArkContent (case resp of None \<Rightarrow> None | Some r \<Rightarrow> res_data r)))"

definition cleanedOf ::
  "(jsstring \<Rightarrow> json option) \<Rightarrow> options \<Rightarrow> http_result option \<Rightarrow> jsstring list option" where
  "cleanedOf JSON_parse opt resp =
     (case cleanLoop (wordsToAddOf (JSON_parse (contentOf resp)) (contentOf resp)) [] of
        None \<Rightarrow> None
      | Some cleaned \<Rightarrow> Some (slice0 (uniqueStable cleaned) (maxAdd opt)))"

definition onFulfilled ::
  "(jsstring \<Rightarrow> json option) \<Rightarrow> options \<Rightarrow> jsstring \<Rightarrow> jsstring \<Rightarrow> http_result option
     \<Rightarrow> extraction option" where
  "onFulfilled JSON_parse opt u base resp =
     (let sc = statusOr0 (case resp of None \<Rightarrow> None | Some r \<Rightarrow> res_response r)
      in case cleanedOf JSON_parse opt resp of
           None \<Rightarrow> None
         | Some cleaned \<Rightarrow>
             Some \<lparr>ok = (sc \<ge> 200 \<and> sc < 300 \<and> length cleaned \<ge> 0),
                   statusCode = sc,
                   words = cleaned,
                   data = (case resp of None \<Rightarrow> None | Some r \<Rightarrow> res_data r),
                   url = Some u,
                   endpoint = Some base,
                   model = volcano_model opt,
                   errorMessage = None\<rparr>)"

text \<open>The rejection handler of the request.\<close>

definition errResponse :: "js_error \<Rightarrow> response_info option" where
  "errResponse err = (case err of ErrValue e \<Rightarrow> err_response e | _ \<Rightarrow> None)"

definition onRejected :: "options \<Rightarrow> jsstring \<Rightarrow> jsstring \<Rightarrow> js_error \<Rightarrow> extraction" where
  "onRejected opt u base err =
     \<lparr>ok = False,
      statusCode = statusOr0 (errResponse err),
      words = [],
      data = Some (orJ (case errResponse err of None \<Rightarrow> None | Some i \<Rightarrow> resp_data i) JNull),
      url = Some u,
      endpoint = Some base,
      model = volcano_model opt,
      errorMessage = Some (errorToMessage err)\<rparr>"

text \<open>\<open>String.prototype.replace\<close> with a pattern without the \<open>g\<close> flag and a plain replacement.\<close>

fun replaceFrom :: "re \<Rightarrow> jsstring \<Rightarrow> bool \<Rightarrow> jsstring \<Rightarrow> jsstring" where
  "replaceFrom r rep b [] = (case matchLen r (b, []) of None \<Rightarrow> [] | Some n \<Rightarrow> rep)"
| "replaceFrom r rep b (c # cs) =
     (case matchLen r (b, c # cs) of
        None \<Rightarrow> c # replaceFrom r rep False cs
      | Some n \<Rightarrow> rep @ drop n (c # cs))"

definition replaceFirst :: "re \<Rightarrow> jsstring \<Rightarrow> jsstring \<Rightarrow> jsstring" where
  "replaceFirst r rep s = replaceFrom r rep True s"

text \<open>
  \<open>/\/+$/\<close>, \<open>/\/api\/v?3$/\<close>, \<open>/\/api$/\<close>,
  \<open>/^https?:\/\/(?:ark[-.]cn-beijing\.bytedance\.net|ark\.bytedance\.net)/i\<close> and \<open>/^bot-/i\<close>
\<close>

definition reTrailingSlashes :: re where
  "reTrailingSlashes = Seq (Plus (lit CHR ''/'')) Eol"

definition reApiV3 :: re where
  "reApiV3 = seqs [lits ''/api/'', Opt (lit CHR ''v''), lit CHR ''3'', Eol]"

definition reApi :: re where
  "reApi = Seq (lits ''/api'') Eol"

definition reArkHost :: re where
  "reArkHost =
     seqs [Bol, litsi ''http'', Opt (liti CHR ''s''), litsi ''://'',
           Alt (seqs [litsi ''ark'', Cls (\<lambda>c. c = 45 \<or> c = 46), litsi ''cn-beijing.bytedance.net''])
               (litsi ''ark.bytedance.net'')]"

definition reBot :: re where
  "reBot = Seq Bol (litsi ''bot-'')"

definition endpointBase :: "jsstring \<Rightarrow> jsstring" where
  "endpointBase vBase =
     (let b0 = replaceFirst reTrailingSlashes [] vBase;
          b1 = (if \<not> test reApiV3 b0
                then (if test reApi b0 then b0 @ js ''/v3'' else b0 @ js ''/api/v3'')
                else b0)
      in if test reArkHost b1 then js ''https://ark.cn-beijing.volces.com/api/v3'' else b1)"

definition requestUrl :: "jsstring \<Rightarrow> jsstring \<Rightarrow> jsstring" where
  "requestUrl base vModel =
     base @ (if test reBot vModel then js ''/bots/chat/completions'' else js ''/chat/completions'')"

text \<open>The text \<open>[LLM \<dots>]\<close> put into \<open>data\<close> when the configuration is incomplete.\<close>

definition msg_llm_unconfigured :: jsstring where
  "msg_llm_unconfigured = [91, 76, 76, 77, 32, 26410, 37197, 32622, 93]"

text \<open>
  An error raised by the runtime itself (\<open>TypeError\<close>, \<open>URIError\<close>). The engine's message
  text is not modelled; the name of the error stands for it.
\<close>

definition runtimeError :: "string \<Rightarrow> js_error" where
  "runtimeError name =
     ErrValue \<lparr>err_message = Some (js name), err_stack = None, err_response = None,
               err_res = None, err_dataJSON = [], err_rawJSON = []\<rparr>"

text \<open>
  \<open>extractWordsByLLMVolcano\<close>: the promise it returns and the calls of \<open>$http.request\<close>
  it makes. Its \<open>text\<close> argument goes into the request body only. The promise is the one
  of \<open>.then(onFulfilled, onRejected)\<close>: an exception of the fulfilment handler rejects it.
\<close>

definition llmRequest :: "options \<Rightarrow> request" where
  "llmRequest opt =
     \<lparr>req_method = ''POST'',
      req_url = requestUrl (endpointBase (case volcano_endpoint opt of None \<Rightarrow> [] | Some b \<Rightarrow> b))
                  (case volcano_model opt of None \<Rightarrow> [] | Some m \<Rightarrow> m),
      req_words = [],
      req_timeout = WORD_CHECK_TIMEOUT_S opt,
      req_handler = False\<rparr>"

definition extractWordsByLLMVolcano ::
  "(jsstring \<Rightarrow> json option) \<Rightarrow> options \<Rightarrow> host \<Rightarrow> extraction promise \<times> request list" where
  "extractWordsByLLMVolcano JSON_parse opt h =
     (if \<not> (truthyS (volcano_api_key opt) \<and> truthyS (volcano_endpoint opt) \<and> truthyS (volcano_model opt))
      then (Resolved \<lparr>ok = False, statusCode = 0, words = [], data = Some (JStr msg_llm_unconfigured),
                      url = None, endpoint = None, model = None, errorMessage = None\<rparr>, [])
      else
        (let base = endpointBase (case volcano_endpoint opt of None \<Rightarrow> [] | Some b \<Rightarrow> b);
             u = req_url (llmRequest opt)
         in case httpRequestP h (llmRequest opt) of
              (Resolved resp, calls) \<Rightarrow>
                ((case onFulfilled JSON_parse opt u base resp of
                    Some out \<Rightarrow> Resolved out
                  | None \<Rightarrow> Rejected (runtimeError ''TypeError'')),
                 calls)
            | (Rejected err, calls) \<Rightarrow> (Resolved (onRejected opt u base err), calls)
            | (Pending, calls) \<Rightarrow> (Pending, calls)))"

section \<open>Dictionary writers\<close>

text \<open>The message texts of the writers, as code units.\<close>

definition msg_add_ok :: jsstring where
  "msg_add_ok = [28155, 21152, 21333, 35789, 25104, 21151, 65306]"

definition msg_add_ok_fallback :: jsstring where
  "msg_add_ok_fallback =
     [28155, 21152, 21333, 35789, 25104, 21151, 65288, 36229, 26102, 26412, 22320, 20828, 24213, 65289, 65306]"

definition msg_youdao_hint :: jsstring where
  "msg_youdao_hint =
     [26377, 36947, 32, 67, 111, 111, 107, 105, 101, 32, 38169, 35823, 25110, 36807, 26399, 65292,
      35831, 37325, 26032, 22635, 20889, 12290]"

definition msg_shanbay_hint :: jsstring where
  "msg_shanbay_hint =
     [25159, 36125, 32, 97, 117, 116, 104, 95, 116, 111, 107, 101, 110, 32, 38169, 35823, 25110,
      36807, 26399, 65292, 35831, 37325, 26032, 22635, 20889, 12290]"

definition msg_eudic_hint :: jsstring where
  "msg_eudic_hint =
     [27431, 36335, 35789, 20856, 32, 116, 111, 107, 101, 110, 32, 25110, 37197, 32622, 26377, 35823,
      65292, 35831, 26816, 26597, 12290]"

definition msg_unknown_dict :: jsstring where
  "msg_unknown_dict = [26410, 30693, 30340, 35789, 20856, 31867, 22411]"

definition msg_add_failed :: jsstring where
  "msg_add_failed = [28155, 21152, 21333, 35789, 22833, 36133, 65306]"

definition msg_add_exception :: jsstring where
  "msg_add_exception = [28155, 21152, 21333, 35789, 24322, 24120, 65306]"

definition msg_unknown_reason :: jsstring where
  "msg_unknown_reason = [26410, 30693, 21407, 22240]"

definition msg_none :: jsstring where
  "msg_none = [26080]"

definition YOUDAO_ADD_WORD_URL :: jsstring where
  "YOUDAO_ADD_WORD_URL = js ''https://dict.youdao.com/wordbook/webapi/v2/ajax/add?lan=en&word=''"

definition SHANBAY_ADD_WORD_URL :: jsstring where
  "SHANBAY_ADD_WORD_URL = js ''https://apiv3.shanbay.com/wordscollection/words_bulk_upload''"

definition EUDIC_ADD_WORD_URL :: jsstring where
  "EUDIC_ADD_WORD_URL = js ''https://api.frdic.com/api/open/v1/studylist/words''"

text \<open>
  \<open>encodeURIComponent\<close>: unreserved code units stay, every other code point is written
  as the percent-encoded bytes of its UTF-8 form, and a surrogate without its partner
  raises a \<open>URIError\<close> (\<open>None\<close>).
\<close>

definition uriUnreserved :: "nat \<Rightarrow> bool" where
  "uriUnreserved c =
     (isLetter c \<or> (48 \<le> c \<and> c \<le> 57) \<or> c = 45 \<or> c = 95 \<or> c = 46 \<or> c = 33 \<or> c = 126
      \<or> c = 42 \<or> c = 39 \<or> c = 40 \<or> c = 41)"

definition hexDigit :: "nat \<Rightarrow> nat" where
  "hexDigit d = (if d < 10 then 48 + d else 55 + d)"

definition pct :: "nat \<Rightarrow> jsstring" where
  "pct b = [37, hexDigit (b div 16), hexDigit (b mod 16)]"

definition utf8pct :: "nat \<Rightarrow> jsstring" where
  "utf8pct cp =
     (if cp < 128 then pct cp
      else if cp < 2048 then pct (192 + cp div 64) @ pct (128 + cp mod 64)
      else if cp < 65536 then
        pct (224 + cp div 4096) @ pct (128 + (cp div 64) mod 64) @ pct (128 + cp mod 64)
      else pct (240 + cp div 262144) @ pct (128 + (cp div 4096) mod 64)
           @ pct (128 + (cp div 64) mod 64) @ pct (128 + cp mod 64))"

fun encodeURIComponent :: "jsstring \<Rightarrow> jsstring option" where
  "encodeURIComponent [] = Some []"
| "encodeURIComponent (c # cs) =
     (if uriUnreserved c then map_option ((#) c) (encodeURIComponent cs)
      else if 56320 \<le> c \<and> c \<le> 57343 then None
      else if 55296 \<le> c \<and> c \<le> 56319 then
        (case cs of
           [] \<Rightarrow> None
         | d # ds \<Rightarrow>
             if 56320 \<le> d \<and> d \<le> 57343
             then map_option ((@) (utf8pct (65536 + (c - 55296) * 1024 + (d - 56320))))
                    (encodeURIComponent ds)
             else None)
      else map_option ((@) (utf8pct c)) (encodeURIComponent cs))"

text \<open>\<open>buildResult\<close> and \<open>buildError\<close>, and the payload a completion callback receives.\<close>

record translate_result =
  from_language :: string
  to_language :: string
  toParagraphs :: "jsstring list"
  fromParagraphs :: "jsstring list"

record plugin_error =
  error_type :: string
  message :: jsstring
  addtion :: jsstring

definition buildResult :: "jsstring \<Rightarrow> translate_result" where
  "buildResult msg =
     \<lparr>from_language = ''en'', to_language = ''zh-Hans'', toParagraphs = [msg],
      fromParagraphs = [js ''success add to word book'']\<rparr>"

definition buildError :: "jsstring \<Rightarrow> plugin_error" where
  "buildError msg = \<lparr>error_type = ''param'', message = msg, addtion = msg_none\<rparr>"

datatype payload = ResultPayload translate_result | ErrorPayload plugin_error

text \<open>
  What a writer does with its callback \<open>cb\<close>: call it with a value (from a promise
  reaction), raise an exception before returning, or never call it. The callbacks passed
  in by this program do not throw.
\<close>

datatype 'a cb_outcome = CallsBack 'a | ThrowsSync js_error | NoCallback

text \<open>
  The writers call \<open>$http.request(...).then(...).catch(...)\<close> directly, so a result
  that is not a thenable raises a \<open>TypeError\<close>. Each takes the host's answer to its call
  and yields what happens to \<open>cb\<close> and the calls of \<open>$http.request\<close> made.
\<close>

definition addWordYoudao :: "options \<Rightarrow> call_result \<Rightarrow> jsstring \<Rightarrow> payload cb_outcome \<times> request list" where
  "addWordYoudao opt cr word =
     (case encodeURIComponent word of
        None \<Rightarrow> (ThrowsSync (runtimeError ''URIError''), [])
      | Some q \<Rightarrow>
          ((case cr of
              Throws e \<Rightarrow> ThrowsSync e
            | ReturnsOther \<Rightarrow> ThrowsSync (runtimeError ''TypeError'')
            | ReturnsThenable st \<Rightarrow>
                (case st of
                   Fulfils res \<Rightarrow>
                     (let dat = orJ (case res of None \<Rightarrow> None | Some r \<Rightarrow> res_data r) (JObj [])
                      in if getP dat ''code'' = Some (JNum 0)
                         then CallsBack (ResultPayload (buildResult (msg_add_ok @ word)))
                         else CallsBack (ErrorPayload (buildError msg_youdao_hint)))
                 | Rejects e \<Rightarrow> CallsBack (ResultPayload (buildResult (msg_add_ok_fallback @ word)))
                 | NeverSettles \<Rightarrow> NoCallback)),
           [\<lparr>req_method = ''GET'', req_url = YOUDAO_ADD_WORD_URL @ q, req_words = [],
             req_timeout = WORD_CHECK_TIMEOUT_S opt, req_handler = False\<rparr>]))"

text \<open>\<open>res && res.response && res.response.statusCode === n\<close>\<close>

definition statusIs :: "http_result option \<Rightarrow> int \<Rightarrow> bool" where
  "statusIs res n =
     (case res of None \<Rightarrow> False
      | Some r \<Rightarrow> (case res_response r of None \<Rightarrow> False | Some i \<Rightarrow> resp_statusCode i = Some n))"

datatype eudic_value = EudicResponse "http_result option" | EudicFallback translate_result

definition addWordEudic :: "options \<Rightarrow> call_result \<Rightarrow> jsstring \<Rightarrow> eudic_value cb_outcome \<times> request list" where
  "addWordEudic opt cr word =
     ((case cr of
         Throws e \<Rightarrow> ThrowsSync e
       | ReturnsOther \<Rightarrow> ThrowsSync (runtimeError ''TypeError'')
       | ReturnsThenable st \<Rightarrow>
           (case st of
              Fulfils res \<Rightarrow> CallsBack (EudicResponse res)
            | Rejects e \<Rightarrow> CallsBack (EudicFallback (buildResult (msg_add_ok_fallback @ word)))
            | NeverSettles \<Rightarrow> NoCallback)),
      [\<lparr>req_method = ''POST'', req_url = EUDIC_ADD_WORD_URL, req_words = [word],
        req_timeout = WORD_CHECK_TIMEOUT_S opt, req_handler = False\<rparr>])"

definition addWordShanbay :: "options \<Rightarrow> call_result \<Rightarrow> jsstring \<Rightarrow> payload cb_outcome \<times> request list" where
  "addWordShanbay opt cr word =
     ((case cr of
         Throws e \<Rightarrow> ThrowsSync e
       | ReturnsOther \<Rightarrow> ThrowsSync (runtimeError ''TypeError'')
       | ReturnsThenable st \<Rightarrow>
           (case st of
              Fulfils res \<Rightarrow>
                if statusIs res 200
                then CallsBack (ResultPayload (buildResult (msg_add_ok @ word)))
                else CallsBack (ErrorPayload (buildError msg_shanbay_hint))
            | Rejects e \<Rightarrow> CallsBack (ResultPayload (buildResult (msg_add_ok_fallback @ word)))
            | NeverSettles \<Rightarrow> NoCallback)),
      [\<lparr>req_method = ''POST'', req_url = SHANBAY_ADD_WORD_URL, req_words = [word],
        req_timeout = WORD_CHECK_TIMEOUT_S opt, req_handler = False\<rparr>])"

text \<open>
  \<open>addWord\<close>, the dispatcher. \<open>dictType\<close> is the number \<open>$option.dict_type\<close> compares
  equal to under \<open>==\<close>. For Eudic the value handed on by \<open>addWordEudic\<close> passes through
  the wrapper that looks for \<open>response.statusCode === 201\<close>.
\<close>

definition addWord :: "options \<Rightarrow> call_result \<Rightarrow> int \<Rightarrow> jsstring \<Rightarrow> payload cb_outcome \<times> request list" where
  "addWord opt cr dictType word =
     (if dictType = 1 then addWordYoudao opt cr word
      else if dictType = 2 then
        (case addWordEudic opt cr word of
           (CallsBack v, calls) \<Rightarrow>
             (CallsBack
                (case v of
                   EudicResponse res \<Rightarrow>
                     if statusIs res 201 then ResultPayload (buildResult (msg_add_ok @ word))
                     else ErrorPayload (buildError msg_eudic_hint)
                 | EudicFallback t \<Rightarrow> ErrorPayload (buildError msg_eudic_hint)),
              calls)
         | (ThrowsSync e, calls) \<Rightarrow> (ThrowsSync e, calls)
         | (NoCallback, calls) \<Rightarrow> (NoCallback, calls))
      else if dictType = 3 then addWordShanbay opt cr word
      else (CallsBack (ErrorPayload (buildError msg_unknown_dict)), []))"

definition pickMessageFromPluginPayload :: "payload \<Rightarrow> jsstring" where
  "pickMessageFromPluginPayload p =
     (case p of
        ResultPayload r \<Rightarrow> (case toParagraphs r of [] \<Rightarrow> [] | m # rest \<Rightarrow> m)
      | ErrorPayload e \<Rightarrow> message e)"

record write_outcome =
  w_word :: jsstring
  w_ok :: bool
  w_message :: jsstring

definition addWordP :: "options \<Rightarrow> call_result \<Rightarrow> int \<Rightarrow> jsstring \<Rightarrow> write_outcome promise \<times> request list" where
  "addWordP opt cr dictType word =
     (case addWord opt cr dictType word of
        (CallsBack p, calls) \<Rightarrow>
          (let msg = pickMessageFromPluginPayload p
           in (Resolved
                 (case p of
                    ResultPayload r \<Rightarrow>
                      \<lparr>w_word = word, w_ok = True,
                       w_message = (if msg \<noteq> [] then msg else msg_add_ok @ word)\<rparr>
                  | ErrorPayload e \<Rightarrow>
                      \<lparr>w_word = word, w_ok = False,
                       w_message = (if msg \<noteq> [] then msg else msg_add_failed @ word)\<rparr>),
               calls))
      | (ThrowsSync e, calls) \<Rightarrow>
          (Resolved \<lparr>w_word = word, w_ok = False, w_message = msg_add_exception @ errorToMessage e\<rparr>,
           calls)
      | (NoCallback, calls) \<Rightarrow> (Pending, calls))"

text \<open>
  \<open>addWordsInSeries\<close>. \<open>hosts i\<close> is the host's answer to the request made for the word at
  index \<open>i\<close>. Besides the promise, the model yields the trace of events in the order in
  which they happen: a call of \<open>$http.request\<close>, and the settling of the write of a word
  with its \<open>ok\<close> flag.
\<close>

datatype event = Issued request | Settled jsstring bool

record batch_report =
  success :: "jsstring list"
  failed :: "(jsstring \<times> jsstring) list"

function seriesNext ::
  "options \<Rightarrow> (nat \<Rightarrow> call_result) \<Rightarrow> int \<Rightarrow> jsstring list \<Rightarrow> nat \<Rightarrow> jsstring list
     \<Rightarrow> (jsstring \<times> jsstring) list \<Rightarrow> event list \<Rightarrow> batch_report promise \<times> event list" where
  "seriesNext opt hosts dictType ws idx succ fl tr =
     (if idx \<ge> length ws then (Resolved \<lparr>success = succ, failed = fl\<rparr>, tr)
      else
        (case addWordP opt (hosts idx) dictType (ws ! idx) of
           (Resolved r, calls) \<Rightarrow>
             seriesNext opt hosts dictType ws (Suc idx)
               (if w_ok r then succ @ [ws ! idx] else succ)
               (if w_ok r then fl
                else fl @ [(ws ! idx, if w_message r \<noteq> [] then w_message r else msg_unknown_reason)])
               (tr @ map Issued calls @ [Settled (ws ! idx) (w_ok r)])
         | (Rejected e, calls) \<Rightarrow> (Rejected e, tr @ map Issued calls)
         | (Pending, calls) \<Rightarrow> (Pending, tr @ map Issued calls)))"
  by pat_completeness auto
termination
  by (relation "measure (\<lambda>(opt, hosts, dictType, ws, idx, succ, fl, tr). length ws - idx)") auto

declare seriesNext.simps [simp del]

definition addWordsInSeries ::
  "options \<Rightarrow> (nat \<Rightarrow> call_result) \<Rightarrow> int \<Rightarrow> jsstring list \<Rightarrow> batch_report promise \<times> event list" where
  "addWordsInSeries opt hosts dictType ws = seriesNext opt hosts dictType ws 0 [] [] []"

section \<open>Reference notions for the properties\<close>

text \<open>
  A declarative reading of the patterns: \<open>sem r b w post\<close> says that \<open>r\<close> can match
  exactly \<open>w\<close> at a position followed by \<open>post\<close>, where \<open>b\<close> tells whether the position
  is the start of the input. It is used to characterise what the matcher accepts.
\<close>

inductive starSem :: "(bool \<Rightarrow> jsstring \<Rightarrow> jsstring \<Rightarrow> bool) \<Rightarrow> bool \<Rightarrow> jsstring \<Rightarrow> jsstring \<Rightarrow> bool"
  for S :: "bool \<Rightarrow> jsstring \<Rightarrow> jsstring \<Rightarrow> bool" where
  starSem_Nil: "starSem S b [] post"
| starSem_Step: "u \<noteq> [] \<Longrightarrow> S b u (v @ post) \<Longrightarrow> starSem S False v post \<Longrightarrow> starSem S b (u @ v) post"

fun sem :: "re \<Rightarrow> bool \<Rightarrow> jsstring \<Rightarrow> jsstring \<Rightarrow> bool" where
  "sem Eps b w post = (w = [])"
| "sem Bol b w post = (w = [] \<and> b)"
| "sem Eol b w post = (w = [] \<and> post = [])"
| "sem (Cls P) b w post = (\<exists>c. w = [c] \<and> P c)"
| "sem (Seq r1 r2) b w post =
     (\<exists>u v. w = u @ v \<and> sem r1 b u (v @ post) \<and> sem r2 (b \<and> u = []) v post)"
| "sem (Alt r1 r2) b w post = (sem r1 b w post \<or> sem r2 b w post)"
| "sem (Opt r) b w post = (w = [] \<or> sem r b w post)"
| "sem (Star r) b w post = starSem (sem r) b w post"

text \<open>
  The strict word rule in the specification's words, on a trimmed string: its length,
  the email and URL shapes, the excluded code units, the shape of letters with inner
  hyphens and apostrophes, and the doubled \<open>--\<close> and \<open>''\<close>.
\<close>

definition emailShaped :: "jsstring \<Rightarrow> bool" where
  "emailShaped s =
     (\<exists>a b c. s = a @ [64] @ b @ [46] @ c \<and> a \<noteq> [] \<and> b \<noteq> [] \<and> c \<noteq> []
        \<and> (\<forall>x \<in> set (a @ b @ c). \<not> isSpace x \<and> x \<noteq> 64))"

definition startsWithCI :: "string \<Rightarrow> jsstring \<Rightarrow> bool" where
  "startsWithCI p s = (map canonASCII (take (length p) s) = map canonASCII (js p))"

definition urlShaped :: "jsstring \<Rightarrow> bool" where
  "urlShaped s =
     (startsWithCI ''http://'' s \<or> startsWithCI ''https://'' s \<or> startsWithCI ''www.'' s
      \<or> sublist (js ''://'') s)"

definition lettersShape :: "jsstring \<Rightarrow> bool" where
  "lettersShape s = (s \<noteq> [] \<and> isLetter (hd s) \<and> isLetter (last s) \<and> (\<forall>c \<in> set s. isWordCh c))"

definition doubled :: "jsstring \<Rightarrow> bool" where
  "doubled s = (sublist [45, 45] s \<or> sublist [39, 39] s)"

definition strictWordSpec :: "jsstring \<Rightarrow> bool" where
  "strictWordSpec t =
     (1 \<le> length t \<and> length t \<le> 64 \<and> \<not> emailShaped t \<and> \<not> urlShaped t
      \<and> (\<forall>c \<in> set t. \<not> isSpace c) \<and> (\<forall>c \<in> set t. \<not> isCJK c)
      \<and> (\<forall>c \<in> set t. \<not> isDigitUnderscore c) \<and> lettersShape t \<and> \<not> doubled t)"

text \<open>
  First-seen order: the elements at the positions where a value occurs for the first
  time, in the order of the positions.
\<close>

definition firstSeen :: "'a list \<Rightarrow> 'a list" where
  "firstSeen xs = map ((!) xs) (filter (\<lambda>i. xs ! i \<notin> set (take i xs)) [0..<length xs])"

text \<open>The candidates that pass the re-validation, in the order of the model's answer.\<close>

definition validCandidates :: "(jsstring \<Rightarrow> json option) \<Rightarrow> http_result option \<Rightarrow> jsstring list" where
  "validCandidates JSON_parse resp =
     filter isLikelyEnglishWord
       (map (\<lambda>x. case candidateString x of None \<Rightarrow> [] | Some w \<Rightarrow> trim w)
          (wordsToAddOf (JSON_parse (contentOf resp)) (contentOf resp)))"

text \<open>An options record with nothing set, and one with the language model configured.\<close>

definition noOptions :: options where
  "noOptions =
     \<lparr>volcano_api_key = None, volcano_endpoint = None, volcano_model = None,
      llm_words_max_add = None, word_check_timeout_ms = None, wordbook_id = None\<rparr>"

definition llmOptions :: options where
  "llmOptions =
     noOptions\<lparr>volcano_api_key := Some (js ''key''),
               volcano_endpoint := Some (js ''https://ark.cn-beijing.volces.com/api/v3''),
               volcano_model := Some (js ''doubao'')\<rparr>"

text \<open>A host that answers the request with status 200 and an empty JSON object.\<close>

definition emptyOk :: host where
  "emptyOk =
     \<lparr>plain_call = ReturnsThenable (Fulfils (Some
        \<lparr>res_response = Some \<lparr>resp_statusCode = Some 200, resp_status = None, resp_data = None\<rparr>,
         res_data = Some (JObj [])\<rparr>)),
      handler_call = NeverCalls\<rparr>"

text \<open>
  Example values: the outcome for an incomplete configuration; a host whose promise
  rejects with a given error; two errors; a host that answers with a status code and a
  chat completion whose message content is a given text; and a stand-in for \<open>JSON.parse\<close>
  that knows the value of one text.
\<close>

definition unconfigured :: extraction where
  "unconfigured =
     \<lparr>ok = False, statusCode = 0, words = [], data = Some (JStr msg_llm_unconfigured),
      url = None, endpoint = None, model = None, errorMessage = None\<rparr>"

definition rejecting :: "js_error \<Rightarrow> host" where
  "rejecting err = \<lparr>plain_call = ReturnsThenable (Rejects err), handler_call = NeverCalls\<rparr>"


definition gatewayError :: js_error where
  "gatewayError =
     ErrValue \<lparr>err_message = None, err_stack = None,
               err_response = Some \<lparr>resp_statusCode = Some 502, resp_status = None, resp_data = None\<rparr>,
               err_res = None, err_dataJSON = [], err_rawJSON = js ''{}''\<rparr>"

definition answering :: "int \<Rightarrow> jsstring \<Rightarrow> host" where
  "answering sc c =
     \<lparr>plain_call = ReturnsThenable (Fulfils (Some
        \<lparr>res_response = Some \<lparr>resp_statusCode = Some sc, resp_status = None, resp_data = None\<rparr>,
         res_data = Some (JObj [(js ''choices'',
           JArr [JObj [(js ''message'', JObj [(js ''content'', JStr c)])]])])\<rparr>)),
      handler_call = NeverCalls\<rparr>"

definition parseOnly :: "jsstring \<Rightarrow> json \<Rightarrow> jsstring \<Rightarrow> json option" where
  "parseOnly c v s = (if s = c then Some v else None)"

text \<open>An answer of the model with repeated, padded and invalid candidates, and its JSON text.\<close>

definition answer6 :: json where
  "answer6 = JArr [JStr (js ''Paris''), JStr (js ''paris''), JStr (js '' serendipity ''),
                   JStr (js ''x_y''), JStr (js ''Paris''), JNum 7, JStr (js ''zeal'')]"

definition text6 :: jsstring where
  \<open>text6 = js ''["Paris","paris"," serendipity ","x_y","Paris",7,"zeal"]''\<close>

text \<open>
  For the serial writer: the write of the word at index \<open>i\<close>, whether it ended with
  \<open>ok\<close>, the reason recorded when it did not, and the events of a write that settles.
\<close>

definition writeOf ::
  "options \<Rightarrow> (nat \<Rightarrow> call_result) \<Rightarrow> int \<Rightarrow> jsstring list \<Rightarrow> nat \<Rightarrow> write_outcome promise \<times> request list" where
  "writeOf opt hosts dictType ws i = addWordP opt (hosts i) dictType (ws ! i)"

definition okAt :: "options \<Rightarrow> (nat \<Rightarrow> call_result) \<Rightarrow> int \<Rightarrow> jsstring list \<Rightarrow> nat \<Rightarrow> bool" where
  "okAt opt hosts dictType ws i =
     (case fst (writeOf opt hosts dictType ws i) of Resolved r \<Rightarrow> w_ok r | _ \<Rightarrow> False)"

definition reasonAt :: "options \<Rightarrow> (nat \<Rightarrow> call_result) \<Rightarrow> int \<Rightarrow> jsstring list \<Rightarrow> nat \<Rightarrow> jsstring" where
  "reasonAt opt hosts dictType ws i =
     (case fst (writeOf opt hosts dictType ws i) of
        Resolved r \<Rightarrow> (if w_message r \<noteq> [] then w_message r else msg_unknown_reason)
      | _ \<Rightarrow> [])"

definition wordEvents :: "options \<Rightarrow> (nat \<Rightarrow> call_result) \<Rightarrow> int \<Rightarrow> jsstring list \<Rightarrow> nat \<Rightarrow> event list" where
  "wordEvents opt hosts dictType ws i =
     map Issued (snd (writeOf opt hosts dictType ws i)) @ [Settled (ws ! i) (okAt opt hosts dictType ws i)]"

text \<open>Answers of a provider: a response with a status code, and one that never comes.\<close>

definition respondsWith :: "int \<Rightarrow> call_result" where
  "respondsWith sc =
     ReturnsThenable (Fulfils (Some
       \<lparr>res_response = Some \<lparr>resp_statusCode = Some sc, resp_status = None, resp_data = None\<rparr>,
        res_data = None\<rparr>))"

definition shanbayRequest :: "options \<Rightarrow> jsstring \<Rightarrow> request" where
  "shanbayRequest opt w =
     \<lparr>req_method = ''POST'', req_url = SHANBAY_ADD_WORD_URL, req_words = [w],
      req_timeout = WORD_CHECK_TIMEOUT_S opt, req_handler = False\<rparr>"

section \<open>Evaluation\<close>

lemmas char_defs =
  js_def cu_def isSpace_def isUpperAZ_def isLowerAZ_def isLetter_def isWordCh_def
  isDigitUnderscore_def isCJK_def notSpaceAt_def toLowerCU_def canonASCII_def

lemmas re_defs =
  Plus_def lit_def lits_def liti_def litsi_def test_def matchLen_def reEmail_def reUrl_def
  reSpace_def reCJK_def reDigitUnderscore_def reToken_def reWord_def reDoubled_def

lemmas word_defs =
  trim_def toLowerCase_def isLikelyEnglishWord_def normalizeWord_def localExtractWords_def

lemmas ev = char_defs re_defs word_defs

lemmas model_defs =
  llmOptions_def noOptions_def truthyS_def httpRequestP_def statusOr0_def onFulfilled_def
  cleanedOf_def contentOf_def extractArkContent_def orJ_def getP_def wordsToAddOf_def
  uniqueStable_def slice0_def maxAdd_def numberOr_def candidateString_def

section \<open>The transport timeout\<close>

lemma timeout_seconds_formula:
  "WORD_CHECK_TIMEOUT_S opt = max 1 (- (- WORD_CHECK_TIMEOUT_MS opt div 50000))"
proof -
  have "\<lceil>real_of_int (WORD_CHECK_TIMEOUT_MS opt) / real_of_int 50000\<rceil>
          = - (- WORD_CHECK_TIMEOUT_MS opt div 50000)"
    by (rule ceiling_divide_eq_div)
  then show ?thesis by (simp add: WORD_CHECK_TIMEOUT_S_def)
qed

text \<open>
  C2. With nothing configured the millisecond budget is 50000 and the timeout carried by
  the requests is 1 second: the budget is divided by 50000. The conversion to seconds the
  specification describes (division by 1000) gives 50 seconds for that budget.
\<close>

theorem default_timeout_is_one_second:
  "WORD_CHECK_TIMEOUT_MS noOptions = 50000 \<and> WORD_CHECK_TIMEOUT_S noOptions = 1
   \<and> specTimeoutSeconds (WORD_CHECK_TIMEOUT_MS noOptions) = 50
   \<and> req_timeout (llmRequest llmOptions) = 1"
  by (simp add: WORD_CHECK_TIMEOUT_S_def WORD_CHECK_TIMEOUT_MS_def numberOr_def noOptions_def
      specTimeoutSeconds_def llmRequest_def llmOptions_def)

section \<open>The extraction outcome\<close>

lemma extract_configured:
  assumes "truthyS (volcano_api_key opt)" "truthyS (volcano_endpoint opt)" "truthyS (volcano_model opt)"
  shows "extractWordsByLLMVolcano JSON_parse opt h =
     (case httpRequestP h (llmRequest opt) of
        (Resolved resp, calls) \<Rightarrow>
          ((case onFulfilled JSON_parse opt (req_url (llmRequest opt))
                  (endpointBase (case volcano_endpoint opt of None \<Rightarrow> [] | Some b \<Rightarrow> b)) resp of
              Some out \<Rightarrow> Resolved out
            | None \<Rightarrow> Rejected (runtimeError ''TypeError'')), calls)
      | (Rejected err, calls) \<Rightarrow>
          (Resolved (onRejected opt (req_url (llmRequest opt))
             (endpointBase (case volcano_endpoint opt of None \<Rightarrow> [] | Some b \<Rightarrow> b)) err), calls)
      | (Pending, calls) \<Rightarrow> (Pending, calls))"
  using assms by (simp add: extractWordsByLLMVolcano_def Let_def)

lemma llm_configured:
  "truthyS (volcano_api_key (llmOptions\<lparr>llm_words_max_add := m\<rparr>))"
  "truthyS (volcano_endpoint (llmOptions\<lparr>llm_words_max_add := m\<rparr>))"
  "truthyS (volcano_model (llmOptions\<lparr>llm_words_max_add := m\<rparr>))"
  by (simp_all add: llmOptions_def noOptions_def truthyS_def js_def)

lemma contentOf_answering:
  "httpRequestP (answering sc c) req =
     (Resolved (Some \<lparr>res_response = Some \<lparr>resp_statusCode = Some sc, resp_status = None, resp_data = None\<rparr>,
         res_data = Some (JObj [(js ''choices'',
           JArr [JObj [(js ''message'', JObj [(js ''content'', JStr c)])]])])\<rparr>), [req])"
  "contentOf (Some \<lparr>res_response = r,
         res_data = Some (JObj [(js ''choices'',
           JArr [JObj [(js ''message'', JObj [(js ''content'', JStr c)])]])])\<rparr>) = trim c"
  by (simp_all add: answering_def httpRequestP_def contentOf_def extractArkContent_def orJ_def getP_def js_def)

lemma map_promise_Resolved:
  "map_promise f p = Resolved y \<Longrightarrow> \<exists>out. p = Resolved out \<and> f out = y"
  by (cases p) auto

text \<open>
  The outcome for a host that answers with status \<open>sc\<close> and a chat completion whose
  content is \<open>c\<close>, given what the validation makes of \<open>c\<close>.
\<close>

lemma answering_outcome:
  assumes "cleanedOf P (llmOptions\<lparr>llm_words_max_add := m\<rparr>)
      (Some \<lparr>res_response = Some \<lparr>resp_statusCode = Some sc, resp_status = None, resp_data = None\<rparr>,
         res_data = Some (JObj [(js ''choices'',
           JArr [JObj [(js ''message'', JObj [(js ''content'', JStr c)])]])])\<rparr>) = Some ws"
  shows "map_promise words (fst (extractWordsByLLMVolcano P (llmOptions\<lparr>llm_words_max_add := m\<rparr>)
            (answering sc c))) = Resolved ws"
    and "map_promise ok (fst (extractWordsByLLMVolcano P (llmOptions\<lparr>llm_words_max_add := m\<rparr>)
            (answering sc c))) = Resolved (200 \<le> sc \<and> sc < 300)"
    and "map_promise statusCode (fst (extractWordsByLLMVolcano P (llmOptions\<lparr>llm_words_max_add := m\<rparr>)
            (answering sc c))) = Resolved sc"
  using assms
  by (simp_all add: extract_configured [OF llm_configured] contentOf_answering(1) onFulfilled_def
      Let_def statusOr0_def)

lemma cleaned_hello:
  \<open>cleanedOf (parseOnly (js ''["hello"]'') (JArr [JStr (js ''hello'')])) (llmOptions\<lparr>llm_words_max_add := m\<rparr>)
      (Some \<lparr>res_response = r,
         res_data = Some (JObj [(js ''choices'',
           JArr [JObj [(js ''message'', JObj [(js ''content'', JStr (js ''["hello"]''))])]])])\<rparr>)
     = Some (slice0 [js ''hello''] (numberOr m 200))\<close>
proof -
  let ?c = \<open>js ''["hello"]''\<close>
  let ?resp = "Some \<lparr>res_response = r,
         res_data = Some (JObj [(js ''choices'',
           JArr [JObj [(js ''message'', JObj [(js ''content'', JStr ?c)])]])])\<rparr>"
  have t: "trim ?c = ?c" by (simp add: ev)
  have p: "parseOnly ?c (JArr [JStr (js ''hello'')]) (contentOf ?resp) = Some (JArr [JStr (js ''hello'')])"
    by (simp add: contentOf_answering t parseOnly_def)
  have cl: "cleanLoop (wordsToAddOf (Some (JArr [JStr (js ''hello'')])) (contentOf ?resp)) []
      = Some [js ''hello'']"
    by (simp add: wordsToAddOf_def candidateString_def ev)
  have u: "uniqueStable [js ''hello''] = [js ''hello'']"
    by (simp add: uniqueStable_def)
  show ?thesis
    by (simp add: cleanedOf_def p cl u maxAdd_def)
qed

text \<open>
  C5. When the configuration is complete and the request's promise is fulfilled with
  \<open>resp\<close>, an outcome the extraction resolves with has \<open>ok\<close> exactly when
  \<open>resp.response.statusCode\<close> is there and lies in 200 to 299; its \<open>statusCode\<close> is that
  status code, and 0 when there is none; and its \<open>words\<close> are what the validation of the
  answer yields, whatever their number.
\<close>

theorem ok_iff_status_2xx:
  assumes "truthyS (volcano_api_key opt)" and "truthyS (volcano_endpoint opt)"
    and "truthyS (volcano_model opt)"
    and "httpRequestP h (llmRequest opt) = (Resolved resp, calls)"
    and "fst (extractWordsByLLMVolcano JSON_parse opt h) = Resolved out"
  shows "(ok out \<longleftrightarrow>
            (\<exists>r i sc. resp = Some r \<and> res_response r = Some i \<and> resp_statusCode i = Some sc
               \<and> 200 \<le> sc \<and> sc < 300))
       \<and> (\<forall>r i sc. resp = Some r \<and> res_response r = Some i \<and> resp_statusCode i = Some sc
             \<longrightarrow> statusCode out = sc)
       \<and> ((\<forall>r i. resp = Some r \<and> res_response r = Some i \<longrightarrow> resp_statusCode i = None)
             \<longrightarrow> statusCode out = 0)
       \<and> cleanedOf JSON_parse opt resp = Some (words out)"
proof -
  from assms obtain ws where c: "cleanedOf JSON_parse opt resp = Some ws"
    and o: "ok out = (200 \<le> statusOr0 (case resp of None \<Rightarrow> None | Some r \<Rightarrow> res_response r)
                    \<and> statusOr0 (case resp of None \<Rightarrow> None | Some r \<Rightarrow> res_response r) < 300)"
    and s: "statusCode out = statusOr0 (case resp of None \<Rightarrow> None | Some r \<Rightarrow> res_response r)"
    and w: "words out = ws"
    by (auto simp: extract_configured onFulfilled_def Let_def split: option.splits)
  have 1: "ok out \<longleftrightarrow>
            (\<exists>r i sc. resp = Some r \<and> res_response r = Some i \<and> resp_statusCode i = Some sc
               \<and> 200 \<le> sc \<and> sc < 300)"
    unfolding o by (auto simp: statusOr0_def split: option.splits)
  have 2: "\<forall>r i sc. resp = Some r \<and> res_response r = Some i \<and> resp_statusCode i = Some sc
             \<longrightarrow> statusCode out = sc"
    unfolding s by (auto simp: statusOr0_def)
  have 3: "(\<forall>r i. resp = Some r \<and> res_response r = Some i \<longrightarrow> resp_statusCode i = None)
             \<longrightarrow> statusCode out = 0"
    unfolding s by (auto simp: statusOr0_def split: option.splits)
  from 1 2 3 c w show ?thesis by simp
qed

text \<open>
  A response with status 200 and no word at all gives \<open>ok = true\<close>; a response with
  status 404 and a valid word gives \<open>ok = false\<close>.
\<close>

theorem ok_iff_status_2xx_witness:
  \<open>(\<exists>out. fst (extractWordsByLLMVolcano (\<lambda>s. None) llmOptions emptyOk) = Resolved out
      \<and> statusCode out = 200 \<and> ok out \<and> words out = [])
   \<and> (\<exists>out. fst (extractWordsByLLMVolcano (parseOnly (js ''["hello"]'') (JArr [JStr (js ''hello'')]))
                 llmOptions (answering 404 (js ''["hello"]''))) = Resolved out
      \<and> statusCode out = 404 \<and> \<not> ok out \<and> words out = [js ''hello''])\<close>
proof -
  have c: "truthyS (volcano_api_key llmOptions)" "truthyS (volcano_endpoint llmOptions)"
      "truthyS (volcano_model llmOptions)"
    by (simp_all add: llmOptions_def noOptions_def truthyS_def js_def)
  have r: "fst (extractWordsByLLMVolcano (\<lambda>s. None) llmOptions emptyOk) =
      Resolved \<lparr>ok = True, statusCode = 200, words = [], data = Some (JObj []),
        url = Some (req_url (llmRequest llmOptions)),
        endpoint = Some (endpointBase (js ''https://ark.cn-beijing.volces.com/api/v3'')),
        model = Some (js ''doubao''), errorMessage = None\<rparr>"
    by (simp add: extract_configured emptyOk_def model_defs ev)
  have h: "httpRequestP emptyOk (llmRequest llmOptions) =
      (Resolved (Some \<lparr>res_response = Some \<lparr>resp_statusCode = Some 200, resp_status = None, resp_data = None\<rparr>,
             res_data = Some (JObj [])\<rparr>), [llmRequest llmOptions])"
    by (simp add: emptyOk_def httpRequestP_def)
  from ok_iff_status_2xx [OF c h r] r
  have 1: "\<exists>out. fst (extractWordsByLLMVolcano (\<lambda>s. None) llmOptions emptyOk) = Resolved out
      \<and> statusCode out = 200 \<and> ok out \<and> words out = []"
    by simp
  let ?P = \<open>parseOnly (js ''["hello"]'') (JArr [JStr (js ''hello'')])\<close>
  have e: "llmOptions\<lparr>llm_words_max_add := None\<rparr> = llmOptions"
    by (simp add: llmOptions_def noOptions_def)
  from map_promise_Resolved [OF answering_outcome(1) [OF cleaned_hello, of None 404]]
  obtain out where
    r2: \<open>fst (extractWordsByLLMVolcano ?P llmOptions (answering 404 (js ''["hello"]''))) = Resolved out\<close>
    and w2: "words out = [js ''hello'']"
    by (auto simp: slice0_def numberOr_def e)
  from ok_iff_status_2xx [OF c contentOf_answering(1) r2]
  have "statusCode out = 404 \<and> \<not> ok out" by simp
  with r2 w2 have 2: \<open>\<exists>out. fst (extractWordsByLLMVolcano ?P llmOptions (answering 404 (js ''["hello"]''))) = Resolved out
      \<and> statusCode out = 404 \<and> \<not> ok out \<and> words out = [js ''hello'']\<close>
    by blast
  from 1 2 show ?thesis by blast
qed

lemma cleanLoop_None_iff:
  "cleanLoop xs acc = None \<longleftrightarrow> (\<exists>x \<in> set xs. candidateString x = None)"
  by (induction xs arbitrary: acc) (auto split: option.splits)

text \<open>
  How the promise of the extraction ends. It stays pending exactly when the configuration
  is complete and the host never answers. It rejects exactly when the configuration is
  complete, the request was fulfilled and \<open>String\<close> throws on a candidate of the answer.
\<close>

lemma extract_pending_iff:
  "fst (extractWordsByLLMVolcano P opt h) = Pending \<longleftrightarrow>
     truthyS (volcano_api_key opt) \<and> truthyS (volcano_endpoint opt) \<and> truthyS (volcano_model opt)
     \<and> (plain_call h = ReturnsThenable NeverSettles
        \<or> ((\<forall>st. plain_call h \<noteq> ReturnsThenable st) \<and> handler_call h = NeverCalls))"
  by (auto simp: extractWordsByLLMVolcano_def Let_def httpRequestP_def
      split: call_result.splits settled.splits handler_result.splits prod.splits promise.splits
        if_splits option.splits)

lemma extract_rejected_iff:
  "fst (extractWordsByLLMVolcano P opt h) = Rejected e \<longleftrightarrow>
     e = runtimeError ''TypeError''
     \<and> truthyS (volcano_api_key opt) \<and> truthyS (volcano_endpoint opt) \<and> truthyS (volcano_model opt)
     \<and> (\<exists>resp calls. httpRequestP h (llmRequest opt) = (Resolved resp, calls)
           \<and> (\<exists>x \<in> set (wordsToAddOf (P (contentOf resp)) (contentOf resp)). candidateString x = None))"
proof -
  have c: "cleanedOf P opt resp = None \<longleftrightarrow>
      (\<exists>x \<in> set (wordsToAddOf (P (contentOf resp)) (contentOf resp)). candidateString x = None)" for resp
    using cleanLoop_None_iff [of "wordsToAddOf (P (contentOf resp)) (contentOf resp)" "[]"]
    by (auto simp: cleanedOf_def split: option.splits)
  show ?thesis
  proof (cases "truthyS (volcano_api_key opt) \<and> truthyS (volcano_endpoint opt) \<and> truthyS (volcano_model opt)")
    case False
    then show ?thesis by (auto simp: extractWordsByLLMVolcano_def)
  next
    case True
    obtain p calls where h: "httpRequestP h (llmRequest opt) = (p, calls)" by (cases "httpRequestP h (llmRequest opt)")
    show ?thesis
    proof (cases p)
      case (Resolved resp)
      with True h show ?thesis
        by (auto simp: extract_configured onFulfilled_def Let_def c [symmetric] split: option.splits)
    next
      case (Rejected err)
      with True h show ?thesis by (simp add: extract_configured)
    next
      case Pending
      with True h show ?thesis by (simp add: extract_configured)
    qed
  qed
qed

text \<open>
  With an incomplete configuration the extraction resolves with
  \<open>{ok: false, statusCode: 0, words: []}\<close> and no call of the transport is made. When the
  request's promise rejects with \<open>err\<close> it resolves with \<open>ok = false\<close>, no words, the
  status code of \<open>err.response\<close> (0 when there is none) and the text of
  \<open>errorToMessage(err)\<close> as \<open>errorMessage\<close>.
\<close>

lemma extract_unconfigured:
  "\<not> (truthyS (volcano_api_key opt) \<and> truthyS (volcano_endpoint opt) \<and> truthyS (volcano_model opt)) \<Longrightarrow>
     extractWordsByLLMVolcano P opt h = (Resolved unconfigured, [])"
  by (auto simp: extractWordsByLLMVolcano_def unconfigured_def)

lemma extract_transport_rejected:
  assumes "truthyS (volcano_api_key opt)" "truthyS (volcano_endpoint opt)" "truthyS (volcano_model opt)"
    and "plain_call h = ReturnsThenable (Rejects err)"
  shows "\<exists>out. extractWordsByLLMVolcano P opt h = (Resolved out, [llmRequest opt])
           \<and> ok out = False \<and> words out = []
           \<and> statusCode out = (case errResponse err of None \<Rightarrow> 0
                 | Some i \<Rightarrow> (case resp_statusCode i of None \<Rightarrow> 0 | Some n \<Rightarrow> n))
           \<and> errorMessage out = Some (errorToMessage err)"
proof -
  from assms(4) have "httpRequestP h (llmRequest opt) = (Rejected err, [llmRequest opt])"
    by (simp add: httpRequestP_def)
  with assms(1-3) show ?thesis
    by (simp add: extract_configured onRejected_def statusOr0_def)
qed

text \<open>
  C6. The extraction does not always resolve. Where the model answers, under status 200,
  with the JSON text \<open>[{"toString":1}]\<close>, the candidate is an object whose own \<open>toString\<close>
  is not a function: \<open>String\<close> throws a \<open>TypeError\<close> in the fulfilment handler, whose loop
  over the candidates is outside any \<open>try\<close>, and the promise rejects after the one request.
\<close>

theorem extraction_rejects_on_toString_candidate:
  \<open>extractWordsByLLMVolcano
          (parseOnly (js ''[{"toString":1}]'') (JArr [JObj [(js ''toString'', JNum 1)]]))
          llmOptions (answering 200 (js ''[{"toString":1}]''))
     = (Rejected (runtimeError ''TypeError''), [llmRequest llmOptions])\<close>
  by (simp add: extract_configured answering_def parseOnly_def model_defs ev)

section \<open>The candidate list\<close>

text \<open>
  C1, as the code has it. A parse result that is an array is the candidate list; an object
  with an array \<open>add\<close> gives that array; every other parsed value (an object without an
  array \<open>add\<close>, \<open>null\<close>, a boolean, a number, a string) gives the empty list; and only when
  \<open>JSON.parse\<close> throws are the candidates the tokens of the local tokenizer. What is parsed
  and tokenized is \<open>contentOf resp\<close>, the trimmed text taken out of the response.
\<close>

theorem wordsToAdd_by_shape:
  "wordsToAddOf (Some (JArr xs)) c = xs
   \<and> (getP (JObj kvs) ''add'' = Some (JArr ys) \<longrightarrow> wordsToAddOf (Some (JObj kvs)) c = ys)
   \<and> ((\<forall>ys. getP (JObj kvs) ''add'' \<noteq> Some (JArr ys)) \<longrightarrow> wordsToAddOf (Some (JObj kvs)) c = [])
   \<and> wordsToAddOf (Some JNull) c = [] \<and> wordsToAddOf (Some (JBool b)) c = []
   \<and> wordsToAddOf (Some (JNum n)) c = [] \<and> wordsToAddOf (Some (JInf g)) c = []
   \<and> wordsToAddOf (Some (JStr s)) c = []
   \<and> wordsToAddOf None c = map JStr (localExtractWords c)
   \<and> cleanedOf JSON_parse opt resp =
       map_option (\<lambda>cleaned. slice0 (uniqueStable cleaned) (maxAdd opt))
         (cleanLoop (wordsToAddOf (JSON_parse (contentOf resp)) (contentOf resp)) [])"
  by (auto simp: wordsToAddOf_def cleanedOf_def split: option.splits json.splits)

theorem wordsToAdd_by_shape_witness:
  \<open>wordsToAddOf (Some (JObj [(js ''add'', JArr [JStr (js ''ephemeral'')]), (js ''skip'', JArr [])]))
       (js ''{"add":["ephemeral"],"skip":[]}'') = [JStr (js ''ephemeral'')]
   \<and> wordsToAddOf (Some (JObj [(js ''words'', JArr [JStr (js ''ephemeral'')])]))
       (js ''{"words":["ephemeral"]}'') = []
   \<and> wordsToAddOf None (js ''Sure: ephemeral, Ubiquitous'') =
       [JStr (js ''sure''), JStr (js ''ephemeral''), JStr (js ''ubiquitous'')]\<close>
  using wordsToAdd_by_shape [of "[]" "[]" "[(js ''add'', JArr [JStr (js ''ephemeral'')]), (js ''skip'', JArr [])]"
      "[JStr (js ''ephemeral'')]"]
    wordsToAdd_by_shape [of "[]" \<open>js ''{"words":["ephemeral"]}''\<close> "[(js ''words'', JArr [JStr (js ''ephemeral'')])]"]
  by (simp add: getP_def wordsToAddOf_def ev)

text \<open>
  The answer \<open>{"words":["ephemeral"]}\<close> parses to an object without \<open>add\<close>: the code takes
  no candidate from it, while the local tokenizer run over the same text finds two words.
\<close>

theorem other_shape_is_not_tokenized:
  \<open>wordsToAddOf (Some (JObj [(js ''words'', JArr [JStr (js ''ephemeral'')])]))
       (js ''{"words":["ephemeral"]}'') = []
   \<and> map JStr (localExtractWords (js ''{"words":["ephemeral"]}''))
       = [JStr (js ''words''), JStr (js ''ephemeral'')]\<close>
  by (simp add: getP_def wordsToAddOf_def ev)

section \<open>Failures of the per-word writes\<close>

lemmas msg_defs =
  msg_add_ok_def msg_add_ok_fallback_def msg_youdao_hint_def msg_shanbay_hint_def
  msg_eudic_hint_def msg_unknown_dict_def msg_add_failed_def msg_add_exception_def
  msg_unknown_reason_def



text \<open>
  The wrapper of \<open>addWord\<close> for dictionary type 2 looks for \<open>response.statusCode === 201\<close>
  in whatever \<open>addWordEudic\<close> hands it, and the fallback payload has no \<open>response\<close>.
  \<open>translate\<close> writes to Eudic through \<open>addWordsBatchEudic\<close> and does not take this branch.
\<close>

lemma addWord_eudic_wrapper_on_fallback:
  "fst (addWord opt (ReturnsThenable (Rejects e)) 2 w)
     = CallsBack (ErrorPayload (buildError msg_eudic_hint))"
  by (simp add: addWord_def addWordEudic_def)

section \<open>Validation, deduplication and truncation of the candidates\<close>

lemma trim_Nil [simp]: "trim [] = []"
  by (simp add: trim_def)

lemma dropWhile_id: "xs = [] \<or> \<not> P (hd xs) \<Longrightarrow> dropWhile P xs = xs"
  by (cases xs) auto

lemma trim_id: "s = [] \<or> (\<not> isSpace (hd s) \<and> \<not> isSpace (last s)) \<Longrightarrow> trim s = s"
  by (cases "s = []") (auto simp: trim_def dropWhile_id hd_rev)

lemma trim_edges:
  assumes "trim s \<noteq> []"
  shows "\<not> isSpace (hd (trim s))" and "\<not> isSpace (last (trim s))"
proof -
  let ?d = "dropWhile isSpace s"
  let ?e = "dropWhile isSpace (rev ?d)"
  from assms have e: "?e \<noteq> []" by (simp add: trim_def)
  have d: "?d \<noteq> []"
  proof
    assume "?d = []"
    then have "?e = []" by (simp only: rev.simps dropWhile.simps)
    with e show False by blast
  qed
  from e have "\<not> isSpace (hd ?e)" by (rule hd_dropWhile)
  then show "\<not> isSpace (last (trim s))" using e by (simp add: trim_def last_rev)
  from d have nd: "\<not> isSpace (hd ?d)" by (rule hd_dropWhile)
  have "last ?e = last (rev ?d)"
    using e by (metis last_appendR takeWhile_dropWhile_id)
  then have "last ?e = hd ?d" using d by (simp add: last_rev)
  with nd show "\<not> isSpace (hd (trim s))" using e by (simp add: trim_def hd_rev)
qed

lemma trim_idem [simp]: "trim (trim s) = trim s"
  by (rule trim_id) (use trim_edges in blast)

lemma set_trim: "set (trim s) \<subseteq> set s"
  unfolding trim_def by (metis set_dropWhileD set_rev subsetI)

lemma isLikelyEnglishWord_trim: "isLikelyEnglishWord (trim s) = isLikelyEnglishWord s"
  by (cases "s = []"; cases "trim s = []") (simp_all add: isLikelyEnglishWord_def Let_def)

lemma remdups_snoc: "remdups (ys @ [x]) = remdups (filter (\<lambda>y. y \<noteq> x) ys) @ [x]"
  by (induction ys) auto

lemma uniqueStableLoop_eq:
  "uniqueStableLoop xs seen out = out @ rev (remdups (rev (filter (\<lambda>x. seen x = None) xs)))"
proof (induction xs arbitrary: seen out)
  case Nil
  then show ?case by simp
next
  case (Cons x xs)
  show ?case
  proof (cases "seen x = None")
    case True
    have f: "filter (\<lambda>y. (seen(x \<mapsto> 1)) y = None) xs = filter (\<lambda>y. y \<noteq> x) (filter (\<lambda>y. seen y = None) xs)"
      by (induction xs) auto
    have g: "(\<lambda>y. y \<noteq> x \<and> (y \<noteq> x \<longrightarrow> seen y = None)) = (\<lambda>y. seen y = None \<and> y \<noteq> x)"
      by auto
    show ?thesis using True
      by (simp add: Cons.IH f remdups_snoc rev_filter g)
  next
    case False
    then obtain y where "seen x = Some y" by blast
    then show ?thesis by (simp add: Cons.IH)
  qed
qed

lemma uniqueStable_rev_remdups: "uniqueStable xs = rev (remdups (rev xs))"
  by (simp add: uniqueStable_def uniqueStableLoop_eq)

lemma firstSeen_snoc: "firstSeen (xs @ [x]) = firstSeen xs @ (if x \<in> set xs then [] else [x])"
proof -
  have a: "filter (\<lambda>i. (xs @ [x]) ! i \<notin> set (take i (xs @ [x]))) [0..<length xs]
         = filter (\<lambda>i. xs ! i \<notin> set (take i xs)) [0..<length xs]"
    by (rule filter_cong) (auto simp: nth_append)
  have b: "map ((!) (xs @ [x])) (filter (\<lambda>i. xs ! i \<notin> set (take i xs)) [0..<length xs])
         = map ((!) xs) (filter (\<lambda>i. xs ! i \<notin> set (take i xs)) [0..<length xs])"
    by (rule map_cong) (auto simp: nth_append)
  have c: "filter (\<lambda>i. (xs @ [x]) ! i \<notin> set (take i (xs @ [x]))) [length xs]
         = (if x \<in> set xs then [] else [length xs])"
    by simp
  have "firstSeen (xs @ [x]) =
      map ((!) (xs @ [x])) (filter (\<lambda>i. (xs @ [x]) ! i \<notin> set (take i (xs @ [x]))) ([0..<length xs] @ [length xs]))"
    by (simp add: firstSeen_def)
  also have "\<dots> = map ((!) (xs @ [x])) (filter (\<lambda>i. xs ! i \<notin> set (take i xs)) [0..<length xs])
       @ map ((!) (xs @ [x])) (if x \<in> set xs then [] else [length xs])"
    by (simp only: filter_append map_append a c)
  also have "\<dots> = firstSeen xs @ (if x \<in> set xs then [] else [x])"
    by (simp add: b firstSeen_def)
  finally show ?thesis .
qed

lemma uniqueStable_firstSeen: "uniqueStable xs = firstSeen xs"
proof (induction xs rule: rev_induct)
  case Nil
  then show ?case by (simp add: uniqueStable_def firstSeen_def)
next
  case (snoc x xs)
  then show ?case by (simp add: firstSeen_snoc uniqueStable_rev_remdups)
qed

lemma distinct_uniqueStable: "distinct (uniqueStable xs)"
  by (simp add: uniqueStable_rev_remdups)

lemma set_uniqueStable: "set (uniqueStable xs) = set xs"
  by (simp add: uniqueStable_rev_remdups)

lemma cleanLoop_Some:
  "cleanLoop xs acc = Some r \<Longrightarrow>
     r = acc @ filter isLikelyEnglishWord (map (\<lambda>x. case candidateString x of None \<Rightarrow> [] | Some w \<Rightarrow> trim w) xs)"
proof (induction xs arbitrary: acc)
  case Nil
  then show ?case by simp
next
  case (Cons x xs)
  from Cons.prems obtain w0 where w0: "candidateString x = Some w0"
    by (auto split: option.splits)
  show ?case
  proof (cases "isLikelyEnglishWord (trim w0)")
    case True
    with Cons.prems w0 have "cleanLoop xs (acc @ [trim w0]) = Some r" by simp
    from Cons.IH [OF this] show ?thesis using True w0 by simp
  next
    case False
    with Cons.prems w0 have "cleanLoop xs acc = Some r" by simp
    from Cons.IH [OF this] show ?thesis using False w0 by simp
  qed
qed

lemma cleanedOf_slice:
  assumes "cleanedOf JSON_parse opt resp = Some ws"
  shows "ws = slice0 (firstSeen (validCandidates JSON_parse resp)) (maxAdd opt)"
proof -
  from assms obtain cleaned where
    c: "cleanLoop (wordsToAddOf (JSON_parse (contentOf resp)) (contentOf resp)) [] = Some cleaned"
    and w: "ws = slice0 (uniqueStable cleaned) (maxAdd opt)"
    by (auto simp: cleanedOf_def split: option.splits)
  from cleanLoop_Some [OF c] have "cleaned = validCandidates JSON_parse resp"
    by (simp add: validCandidates_def)
  with w show ?thesis by (simp add: uniqueStable_firstSeen)
qed

lemma slice0_prefix: "prefix (slice0 xs e) xs"
  by (simp add: slice0_def Let_def take_is_prefix)

text \<open>
  What \<open>slice(0, Number($option.llm_words_max_add) || 200)\<close> keeps of a list, by the value
  of the option.
\<close>

lemma slice0_by_option:
  "(m = None \<or> m = Some 0 \<longrightarrow> slice0 xs (numberOr m 200) = take 200 xs)
   \<and> (\<forall>n. m = Some n \<and> 0 < n \<longrightarrow> slice0 xs (numberOr m 200) = take (nat n) xs)
   \<and> (\<forall>n. m = Some n \<and> n < 0 \<longrightarrow> slice0 xs (numberOr m 200) = take (length xs - nat (- n)) xs)"
  by (auto simp: slice0_def numberOr_def Let_def min_def max_def nat_diff_distrib' nat_add_distrib
      intro: arg_cong2 [where f = take])

lemma validCandidates_valid:
  "w \<in> set (validCandidates JSON_parse resp) \<Longrightarrow> isLikelyEnglishWord w \<and> trim w = w"
  by (auto simp: validCandidates_def split: option.splits)

lemma words_cases:
  assumes "fst (extractWordsByLLMVolcano JSON_parse opt h) = Resolved out"
  shows "words out = [] \<or>
         (truthyS (volcano_api_key opt) \<and> truthyS (volcano_endpoint opt) \<and> truthyS (volcano_model opt)
          \<and> (\<exists>resp calls. httpRequestP h (llmRequest opt) = (Resolved resp, calls)
                \<and> cleanedOf JSON_parse opt resp = Some (words out)))"
  using assms
  by (auto simp: extractWordsByLLMVolcano_def Let_def onFulfilled_def onRejected_def
      split: if_splits prod.splits promise.splits option.splits)

text \<open>
  C4, as the code has it. For an outcome the extraction resolves with: every entry of
  \<open>words\<close> passes the strict word predicate and is trimmed; the entries are pairwise
  distinct; and they are an initial part of the valid candidates in first-seen order. How
  many are kept follows \<open>llm_words_max_add\<close>: for a positive number \<open>n\<close> the first \<open>n\<close>, so
  at most \<open>n\<close>; when the option is not set or is 0, the first 200; and a negative number
  \<open>-k\<close> is no maximum, all but the last \<open>k\<close> are kept.
\<close>

theorem extraction_words_invariant:
  assumes "fst (extractWordsByLLMVolcano JSON_parse opt h) = Resolved out"
  shows "(\<forall>w \<in> set (words out). isLikelyEnglishWord w \<and> trim w = w)
       \<and> distinct (words out)
       \<and> (llm_words_max_add opt = None \<or> llm_words_max_add opt = Some 0 \<longrightarrow> length (words out) \<le> 200)
       \<and> (\<forall>n. llm_words_max_add opt = Some n \<and> 0 < n \<longrightarrow> int (length (words out)) \<le> n)
       \<and> (\<forall>resp calls.
             truthyS (volcano_api_key opt) \<and> truthyS (volcano_endpoint opt) \<and> truthyS (volcano_model opt)
             \<and> httpRequestP h (llmRequest opt) = (Resolved resp, calls) \<longrightarrow>
             prefix (words out) (firstSeen (validCandidates JSON_parse resp))
             \<and> (llm_words_max_add opt = None \<or> llm_words_max_add opt = Some 0 \<longrightarrow>
                  words out = take 200 (firstSeen (validCandidates JSON_parse resp)))
             \<and> (\<forall>n. llm_words_max_add opt = Some n \<and> 0 < n \<longrightarrow>
                  words out = take (nat n) (firstSeen (validCandidates JSON_parse resp)))
             \<and> (\<forall>n. llm_words_max_add opt = Some n \<and> n < 0 \<longrightarrow>
                  words out = take (length (firstSeen (validCandidates JSON_parse resp)) - nat (- n))
                                (firstSeen (validCandidates JSON_parse resp))))"
proof -
  have fs: "distinct (firstSeen xs)" "set (firstSeen xs) = set xs" for xs :: "jsstring list"
    using distinct_uniqueStable [of xs] set_uniqueStable [of xs] by (simp_all add: uniqueStable_firstSeen)
  have shape: "prefix ws (firstSeen (validCandidates JSON_parse resp))
      \<and> (llm_words_max_add opt = None \<or> llm_words_max_add opt = Some 0 \<longrightarrow>
            ws = take 200 (firstSeen (validCandidates JSON_parse resp)))
      \<and> (\<forall>n. llm_words_max_add opt = Some n \<and> 0 < n \<longrightarrow>
            ws = take (nat n) (firstSeen (validCandidates JSON_parse resp)))
      \<and> (\<forall>n. llm_words_max_add opt = Some n \<and> n < 0 \<longrightarrow>
            ws = take (length (firstSeen (validCandidates JSON_parse resp)) - nat (- n))
                   (firstSeen (validCandidates JSON_parse resp)))"
    if c: "cleanedOf JSON_parse opt resp = Some ws" for resp ws
  proof -
    from cleanedOf_slice [OF c]
    have w: "ws = slice0 (firstSeen (validCandidates JSON_parse resp)) (numberOr (llm_words_max_add opt) 200)"
      by (simp add: maxAdd_def)
    show ?thesis
      unfolding w
      using slice0_by_option [of "llm_words_max_add opt" "firstSeen (validCandidates JSON_parse resp)"]
        slice0_prefix [of "firstSeen (validCandidates JSON_parse resp)" "numberOr (llm_words_max_add opt) 200"]
      by blast
  qed
  from words_cases [OF assms] show ?thesis
  proof
    assume e: "words out = []"
    have "cleanedOf JSON_parse opt resp = Some (words out)"
      if c: "truthyS (volcano_api_key opt) \<and> truthyS (volcano_endpoint opt) \<and> truthyS (volcano_model opt)"
        and h: "httpRequestP h (llmRequest opt) = (Resolved resp, calls)" for resp calls
      using assms c h
      by (auto simp: extract_configured onFulfilled_def Let_def split: option.splits)
    then have 5: "\<forall>resp calls.
             truthyS (volcano_api_key opt) \<and> truthyS (volcano_endpoint opt) \<and> truthyS (volcano_model opt)
             \<and> httpRequestP h (llmRequest opt) = (Resolved resp, calls) \<longrightarrow>
             prefix (words out) (firstSeen (validCandidates JSON_parse resp))
             \<and> (llm_words_max_add opt = None \<or> llm_words_max_add opt = Some 0 \<longrightarrow>
                  words out = take 200 (firstSeen (validCandidates JSON_parse resp)))
             \<and> (\<forall>n. llm_words_max_add opt = Some n \<and> 0 < n \<longrightarrow>
                  words out = take (nat n) (firstSeen (validCandidates JSON_parse resp)))
             \<and> (\<forall>n. llm_words_max_add opt = Some n \<and> n < 0 \<longrightarrow>
                  words out = take (length (firstSeen (validCandidates JSON_parse resp)) - nat (- n))
                                (firstSeen (validCandidates JSON_parse resp)))"
      using shape by blast
    from e have "(\<forall>w \<in> set (words out). isLikelyEnglishWord w \<and> trim w = w)"
      "distinct (words out)"
      "llm_words_max_add opt = None \<or> llm_words_max_add opt = Some 0 \<longrightarrow> length (words out) \<le> 200"
      "\<forall>n. llm_words_max_add opt = Some n \<and> 0 < n \<longrightarrow> int (length (words out)) \<le> n"
      by simp_all
    with 5 show ?thesis by blast
  next
    assume "truthyS (volcano_api_key opt) \<and> truthyS (volcano_endpoint opt) \<and> truthyS (volcano_model opt)
          \<and> (\<exists>resp calls. httpRequestP h (llmRequest opt) = (Resolved resp, calls)
                \<and> cleanedOf JSON_parse opt resp = Some (words out))"
    then obtain resp calls where h: "httpRequestP h (llmRequest opt) = (Resolved resp, calls)"
      and c: "cleanedOf JSON_parse opt resp = Some (words out)" by blast
    let ?v = "validCandidates JSON_parse resp"
    note s = shape [OF c]
    from s have p: "prefix (words out) (firstSeen ?v)" by blast
    have 1: "\<forall>w \<in> set (words out). isLikelyEnglishWord w \<and> trim w = w"
    proof
      fix x assume "x \<in> set (words out)"
      with p have "x \<in> set (firstSeen ?v)" by (auto dest: set_mono_prefix)
      then have "x \<in> set ?v" by (simp add: fs)
      then show "isLikelyEnglishWord x \<and> trim x = x" by (rule validCandidates_valid)
    qed
    from p have 2: "distinct (words out)" using fs(1) [of ?v] by (auto simp: prefix_def)
    have 3: "llm_words_max_add opt = None \<or> llm_words_max_add opt = Some 0 \<longrightarrow> length (words out) \<le> 200"
    proof
      assume "llm_words_max_add opt = None \<or> llm_words_max_add opt = Some 0"
      with s have "words out = take 200 (firstSeen ?v)" by blast
      then have "length (words out) = min (length (firstSeen ?v)) 200" by simp
      then show "length (words out) \<le> 200" by simp
    qed
    have 4: "\<forall>n. llm_words_max_add opt = Some n \<and> 0 < n \<longrightarrow> int (length (words out)) \<le> n"
    proof (intro allI impI)
      fix n assume n: "llm_words_max_add opt = Some n \<and> 0 < n"
      with s have "words out = take (nat n) (firstSeen ?v)" by blast
      then have "length (words out) \<le> nat n" by simp
      with n show "int (length (words out)) \<le> n" by arith
    qed
    have 5: "\<forall>resp' calls'.
             truthyS (volcano_api_key opt) \<and> truthyS (volcano_endpoint opt) \<and> truthyS (volcano_model opt)
             \<and> httpRequestP h (llmRequest opt) = (Resolved resp', calls') \<longrightarrow>
             prefix (words out) (firstSeen (validCandidates JSON_parse resp'))
             \<and> (llm_words_max_add opt = None \<or> llm_words_max_add opt = Some 0 \<longrightarrow>
                  words out = take 200 (firstSeen (validCandidates JSON_parse resp')))
             \<and> (\<forall>n. llm_words_max_add opt = Some n \<and> 0 < n \<longrightarrow>
                  words out = take (nat n) (firstSeen (validCandidates JSON_parse resp')))
             \<and> (\<forall>n. llm_words_max_add opt = Some n \<and> n < 0 \<longrightarrow>
                  words out = take (length (firstSeen (validCandidates JSON_parse resp')) - nat (- n))
                                (firstSeen (validCandidates JSON_parse resp')))"
    proof (intro allI impI)
      fix resp' calls'
      assume "truthyS (volcano_api_key opt) \<and> truthyS (volcano_endpoint opt) \<and> truthyS (volcano_model opt)
             \<and> httpRequestP h (llmRequest opt) = (Resolved resp', calls')"
      with h have "resp' = resp" by simp
      with s show "prefix (words out) (firstSeen (validCandidates JSON_parse resp'))
             \<and> (llm_words_max_add opt = None \<or> llm_words_max_add opt = Some 0 \<longrightarrow>
                  words out = take 200 (firstSeen (validCandidates JSON_parse resp')))
             \<and> (\<forall>n. llm_words_max_add opt = Some n \<and> 0 < n \<longrightarrow>
                  words out = take (nat n) (firstSeen (validCandidates JSON_parse resp')))
             \<and> (\<forall>n. llm_words_max_add opt = Some n \<and> n < 0 \<longrightarrow>
                  words out = take (length (firstSeen (validCandidates JSON_parse resp')) - nat (- n))
                                (firstSeen (validCandidates JSON_parse resp')))"
        by simp
    qed
    from 1 2 3 4 5 show ?thesis by blast
  qed
qed

lemma cleaned6:
  "cleanedOf (parseOnly text6 answer6) (llmOptions\<lparr>llm_words_max_add := m\<rparr>)
      (Some \<lparr>res_response = r,
         res_data = Some (JObj [(js ''choices'',
           JArr [JObj [(js ''message'', JObj [(js ''content'', JStr text6)])]])])\<rparr>)
     = Some (slice0 [js ''Paris'', js ''paris'', js ''serendipity'', js ''zeal''] (numberOr m 200))"
proof -
  let ?resp = "Some \<lparr>res_response = r,
         res_data = Some (JObj [(js ''choices'',
           JArr [JObj [(js ''message'', JObj [(js ''content'', JStr text6)])]])])\<rparr>"
  have t: "trim text6 = text6" by (simp add: text6_def ev)
  have p: "parseOnly text6 answer6 (contentOf ?resp) = Some answer6"
    by (simp add: contentOf_answering t parseOnly_def)
  have cl: "cleanLoop (wordsToAddOf (Some answer6) (contentOf ?resp)) []
      = Some [js ''Paris'', js ''paris'', js ''serendipity'', js ''Paris'', js ''zeal'']"
    by (simp add: answer6_def wordsToAddOf_def candidateString_def numberToString_def digits.simps ev)
  have u: "uniqueStable [js ''Paris'', js ''paris'', js ''serendipity'', js ''Paris'', js ''zeal'']
      = [js ''Paris'', js ''paris'', js ''serendipity'', js ''zeal'']"
    by (simp add: uniqueStable_def js_def)
  show ?thesis
    by (simp add: cleanedOf_def p cl u maxAdd_def)
qed

text \<open>
  An answer with seven candidates: the padded candidate is trimmed, the invalid ones and
  the repeated one are dropped. With a maximum of three the first three remain; with no
  maximum configured all four do.
\<close>

theorem extraction_words_invariant_witness:
  "(\<exists>out. fst (extractWordsByLLMVolcano (parseOnly text6 answer6)
              (llmOptions\<lparr>llm_words_max_add := Some 3\<rparr>) (answering 200 text6)) = Resolved out
      \<and> words out = [js ''Paris'', js ''paris'', js ''serendipity'']
      \<and> distinct (words out) \<and> int (length (words out)) \<le> 3)
   \<and> (\<exists>out. fst (extractWordsByLLMVolcano (parseOnly text6 answer6)
              (llmOptions\<lparr>llm_words_max_add := None\<rparr>) (answering 200 text6)) = Resolved out
      \<and> words out = [js ''Paris'', js ''paris'', js ''serendipity'', js ''zeal'']
      \<and> distinct (words out) \<and> length (words out) \<le> 200)"
proof -
  from map_promise_Resolved [OF answering_outcome(1) [OF cleaned6, of "Some 3" 200]]
  obtain out where
    r: "fst (extractWordsByLLMVolcano (parseOnly text6 answer6)
              (llmOptions\<lparr>llm_words_max_add := Some 3\<rparr>) (answering 200 text6)) = Resolved out"
    and w: "words out = [js ''Paris'', js ''paris'', js ''serendipity'']"
    by (auto simp: slice0_def numberOr_def)
  from map_promise_Resolved [OF answering_outcome(1) [OF cleaned6, of None 200]]
  obtain out' where
    r': "fst (extractWordsByLLMVolcano (parseOnly text6 answer6)
              (llmOptions\<lparr>llm_words_max_add := None\<rparr>) (answering 200 text6)) = Resolved out'"
    and w': "words out' = [js ''Paris'', js ''paris'', js ''serendipity'', js ''zeal'']"
    by (auto simp: slice0_def numberOr_def)
  have m: "llm_words_max_add (llmOptions\<lparr>llm_words_max_add := x\<rparr>) = x" for x
    by simp
  from extraction_words_invariant [OF r] have "distinct (words out) \<and> int (length (words out)) \<le> 3"
    unfolding m by simp
  moreover from extraction_words_invariant [OF r'] have "distinct (words out') \<and> length (words out') \<le> 200"
    unfolding m by simp
  ultimately show ?thesis using r w r' w' by blast
qed

text \<open>
  With \<open>llm_words_max_add\<close> set to 0 the same answer gives four words, and with -1 it
  gives three: more than the configured number each time.
\<close>

theorem cap_is_not_the_configured_number:
  "map_promise words (fst (extractWordsByLLMVolcano (parseOnly text6 answer6)
              (llmOptions\<lparr>llm_words_max_add := Some 0\<rparr>) (answering 200 text6)))
     = Resolved [js ''Paris'', js ''paris'', js ''serendipity'', js ''zeal'']
   \<and> map_promise words (fst (extractWordsByLLMVolcano (parseOnly text6 answer6)
              (llmOptions\<lparr>llm_words_max_add := Some (- 1)\<rparr>) (answering 200 text6)))
     = Resolved [js ''Paris'', js ''paris'', js ''serendipity'']"
  using answering_outcome(1) [OF cleaned6, of "Some 0" 200]
    answering_outcome(1) [OF cleaned6, of "Some (- 1)" 200]
  by (simp add: slice0_def numberOr_def)

text \<open>
  A number literal beyond the range of a double, as in the answer \<open>[1e999]\<close>, is a
  candidate with the text \<open>Infinity\<close>, which passes the re-validation.
\<close>

lemma infinity_candidate:
  "candidateString (JInf False) = Some (js ''Infinity'') \<and> isLikelyEnglishWord (js ''Infinity'')
   \<and> candidateString (JInf True) = Some (js ''-Infinity'') \<and> \<not> isLikelyEnglishWord (js ''-Infinity'')"
  by (simp add: candidateString_def ev)

lemma isLikelyEnglishWord_nonempty: "isLikelyEnglishWord s \<Longrightarrow> s \<noteq> [] \<and> trim s \<noteq> []"
  by (auto simp: isLikelyEnglishWord_def Let_def split: if_splits)

text \<open>
  C10. Two valid candidates whose trimmed forms differ, though they agree once
  lower-cased, are both kept by \<open>uniqueStable\<close> and both appear in \<open>words\<close>, in their
  order, when the maximum allows two.
\<close>

theorem dedup_is_case_sensitive:
  assumes "isLikelyEnglishWord a" and "isLikelyEnglishWord b"
    and "trim a \<noteq> trim b" and "toLowerCase (trim a) = toLowerCase (trim b)"
    and "2 \<le> maxAdd opt"
    and "JSON_parse (contentOf resp) = Some (JArr [JStr a, JStr b])"
  shows "uniqueStable [trim a, trim b] = [trim a, trim b]
       \<and> map_option words (onFulfilled JSON_parse opt u base resp) = Some [trim a, trim b]"
proof -
  from assms(1,2) have ne: "a \<noteq> []" "b \<noteq> []"
    by (auto dest: isLikelyEnglishWord_nonempty)
  have u: "uniqueStable [trim a, trim b] = [trim a, trim b]"
    using assms(3) by (simp add: uniqueStable_def)
  have "cleanLoop (wordsToAddOf (JSON_parse (contentOf resp)) (contentOf resp)) [] = Some [trim a, trim b]"
    using assms(1,2,6) ne
    by (simp add: wordsToAddOf_def candidateString_def isLikelyEnglishWord_trim)
  then have "cleanedOf JSON_parse opt resp = Some [trim a, trim b]"
    using u assms(5) by (simp add: cleanedOf_def slice0_def Let_def)
  then show ?thesis using u by (simp add: onFulfilled_def Let_def)
qed

text \<open>
  The answer \<open>["Paris","paris"]\<close> gives both words.
\<close>

theorem dedup_is_case_sensitive_witness:
  \<open>\<exists>out. fst (extractWordsByLLMVolcano
               (parseOnly (js ''["Paris","paris"]'') (JArr [JStr (js ''Paris''), JStr (js ''paris'')]))
               llmOptions (answering 200 (js ''["Paris","paris"]''))) = Resolved out
      \<and> words out = [js ''Paris'', js ''paris'']
      \<and> toLowerCase (js ''Paris'') = toLowerCase (js ''paris'')\<close>
proof -
  let ?c = \<open>js ''["Paris","paris"]''\<close>
  let ?resp = "Some \<lparr>res_response = Some \<lparr>resp_statusCode = Some 200, resp_status = None, resp_data = None\<rparr>,
         res_data = Some (JObj [(js ''choices'',
           JArr [JObj [(js ''message'', JObj [(js ''content'', JStr ?c)])]])])\<rparr>"
  let ?P = "parseOnly ?c (JArr [JStr (js ''Paris''), JStr (js ''paris'')])"
  have t: "trim ?c = ?c" by (simp add: ev)
  have p: "?P (contentOf ?resp) = Some (JArr [JStr (js ''Paris''), JStr (js ''paris'')])"
    by (simp add: contentOf_answering t parseOnly_def)
  have a: "isLikelyEnglishWord (js ''Paris'')" "isLikelyEnglishWord (js ''paris'')"
    "trim (js ''Paris'') \<noteq> trim (js ''paris'')"
    "toLowerCase (trim (js ''Paris'')) = toLowerCase (trim (js ''paris''))"
    by (simp_all add: ev)
  have m: "2 \<le> maxAdd llmOptions" by (simp add: maxAdd_def numberOr_def llmOptions_def noOptions_def)
  have tr: "trim (js ''Paris'') = js ''Paris''" "trim (js ''paris'') = js ''paris''"
    by (simp_all add: ev)
  from dedup_is_case_sensitive [where JSON_parse = ?P and resp = ?resp and opt = llmOptions
      and a = "js ''Paris''" and b = "js ''paris''" and u = "req_url (llmRequest llmOptions)"
      and base = "endpointBase (js ''https://ark.cn-beijing.volces.com/api/v3'')", OF a m p]
  obtain out where o: "onFulfilled ?P llmOptions (req_url (llmRequest llmOptions))
      (endpointBase (js ''https://ark.cn-beijing.volces.com/api/v3'')) ?resp = Some out"
    and w: "words out = [js ''Paris'', js ''paris'']"
    by (auto simp: tr)
  have "fst (extractWordsByLLMVolcano ?P llmOptions (answering 200 ?c)) = Resolved out"
    using o llm_configured [of None]
    by (simp add: extract_configured contentOf_answering llmOptions_def noOptions_def truthyS_def js_def)
  with w show ?thesis using a(4) by (auto simp: tr)
qed

section \<open>Serial writes\<close>

lemma addWordP_not_rejected: "fst (addWordP opt cr dictType w) \<noteq> Rejected e"
  by (auto simp: addWordP_def Let_def split: prod.splits cb_outcome.splits payload.splits)

lemma seriesNext_run:
  assumes "idx \<le> k" and "k \<le> length ws"
    and "\<forall>i. idx \<le> i \<and> i < k \<longrightarrow> (\<exists>r. fst (writeOf opt hosts dictType ws i) = Resolved r)"
    and "k < length ws \<longrightarrow> fst (writeOf opt hosts dictType ws k) = Pending"
  shows "seriesNext opt hosts dictType ws idx succ fl tr =
     ((if k < length ws then Pending
       else Resolved \<lparr>success = succ @ map ((!) ws) (filter (okAt opt hosts dictType ws) [idx..<k]),
                      failed = fl @ map (\<lambda>i. (ws ! i, reasonAt opt hosts dictType ws i))
                                     (filter (\<lambda>i. \<not> okAt opt hosts dictType ws i) [idx..<k])\<rparr>),
      tr @ concat (map (wordEvents opt hosts dictType ws) [idx..<k])
         @ (if k < length ws then map Issued (snd (writeOf opt hosts dictType ws k)) else []))"
  using assms
proof (induction "k - idx" arbitrary: idx succ fl tr)
  case 0
  then have eq: "idx = k" by simp
  show ?case
  proof (cases "k < length ws")
    case True
    with "0.prems"(4) obtain calls where "addWordP opt (hosts k) dictType (ws ! k) = (Pending, calls)"
      by (cases "addWordP opt (hosts k) dictType (ws ! k)") (auto simp: writeOf_def)
    with True show ?thesis
      by (subst seriesNext.simps) (simp add: eq writeOf_def)
  next
    case False
    with "0.prems"(2) have "k = length ws" by simp
    then show ?thesis
      by (subst seriesNext.simps) (simp add: eq)
  qed
next
  case (Suc n)
  then have lt: "idx < k" and ltl: "idx < length ws" by simp_all
  with Suc.prems(3) obtain r where "fst (writeOf opt hosts dictType ws idx) = Resolved r" by blast
  then obtain calls where w: "addWordP opt (hosts idx) dictType (ws ! idx) = (Resolved r, calls)"
    by (cases "addWordP opt (hosts idx) dictType (ws ! idx)") (auto simp: writeOf_def)
  have ok: "okAt opt hosts dictType ws idx = w_ok r"
    and re: "reasonAt opt hosts dictType ws idx = (if w_message r \<noteq> [] then w_message r else msg_unknown_reason)"
    and ev: "wordEvents opt hosts dictType ws idx = map Issued calls @ [Settled (ws ! idx) (w_ok r)]"
    by (simp_all add: okAt_def reasonAt_def wordEvents_def writeOf_def w)
  have n: "n = k - Suc idx" using Suc.hyps(2) by simp
  have p3: "\<forall>i. Suc idx \<le> i \<and> i < k \<longrightarrow> (\<exists>r. fst (writeOf opt hosts dictType ws i) = Resolved r)"
    using Suc.prems(3) by auto
  have le: "Suc idx \<le> k" using lt by simp
  note IH = Suc.hyps(1) [OF n le Suc.prems(2) p3 Suc.prems(4)]
  have u: "[idx..<k] = idx # [Suc idx..<k]" using lt by (simp add: upt_conv_Cons)
  have nle: "\<not> length ws \<le> idx" using ltl by simp
  show ?case
    by (subst seriesNext.simps) (simp add: nle w IH u ok re ev)
qed

text \<open>
  C8. Let the writes of the words before index \<open>k\<close> settle, and let \<open>k\<close> be the length
  of the list or the index of a write that never settles. Then the trace of
  \<open>addWordsInSeries\<close> is, word after word in the order of the list, the requests of a word
  followed by the settling of its write, and after them only the requests of word \<open>k\<close>, if
  there is one: no request of a later word is issued before, or without, the settling of
  the earlier ones. The report, made when \<open>k\<close> is the length, lists the words that ended
  with \<open>ok\<close> and the failed ones with their reasons, each in the order of the list.
\<close>

theorem serial_writes_in_order:
  assumes "k \<le> length ws"
    and "\<forall>i<k. \<exists>r. fst (writeOf opt hosts dictType ws i) = Resolved r"
    and "k < length ws \<longrightarrow> fst (writeOf opt hosts dictType ws k) = Pending"
  shows "snd (addWordsInSeries opt hosts dictType ws) =
           concat (map (wordEvents opt hosts dictType ws) [0..<k])
           @ (if k < length ws then map Issued (snd (writeOf opt hosts dictType ws k)) else [])
       \<and> fst (addWordsInSeries opt hosts dictType ws) =
           (if k < length ws then Pending
            else Resolved \<lparr>success = map ((!) ws) (filter (okAt opt hosts dictType ws) [0..<k]),
                           failed = map (\<lambda>i. (ws ! i, reasonAt opt hosts dictType ws i))
                                      (filter (\<lambda>i. \<not> okAt opt hosts dictType ws i) [0..<k])\<rparr>)"
proof -
  have "seriesNext opt hosts dictType ws 0 [] [] [] =
     ((if k < length ws then Pending
       else Resolved \<lparr>success = [] @ map ((!) ws) (filter (okAt opt hosts dictType ws) [0..<k]),
                      failed = [] @ map (\<lambda>i. (ws ! i, reasonAt opt hosts dictType ws i))
                                     (filter (\<lambda>i. \<not> okAt opt hosts dictType ws i) [0..<k])\<rparr>),
      [] @ concat (map (wordEvents opt hosts dictType ws) [0..<k])
         @ (if k < length ws then map Issued (snd (writeOf opt hosts dictType ws k)) else []))"
    by (rule seriesNext_run) (use assms in auto)
  then show ?thesis
    by (simp add: addWordsInSeries_def)
qed

lemma shanbay_write:
  "snd (addWordP opt cr 3 w) = [shanbayRequest opt w]"
  "fst (addWordP opt cr 3 w) = Pending \<longleftrightarrow> cr = ReturnsThenable NeverSettles"
  "fst (addWordP opt (respondsWith sc) 3 w) =
     Resolved \<lparr>w_word = w, w_ok = (sc = 200),
               w_message = (if sc = 200 then msg_add_ok @ w else msg_shanbay_hint)\<rparr>"
  by (auto simp: addWordP_def addWord_def addWordShanbay_def shanbayRequest_def respondsWith_def
      statusIs_def pickMessageFromPluginPayload_def buildResult_def buildError_def msg_defs Let_def
      split: call_result.splits settled.splits)

lemma youdao_write:
  "encodeURIComponent w = Some q \<Longrightarrow>
     snd (addWordP opt cr 1 w) =
       [\<lparr>req_method = ''GET'', req_url = YOUDAO_ADD_WORD_URL @ q, req_words = [],
         req_timeout = WORD_CHECK_TIMEOUT_S opt, req_handler = False\<rparr>]"
  by (auto simp: addWordP_def addWord_def addWordYoudao_def Let_def
      split: call_result.splits settled.splits)

text \<open>
  Three words written to Shanbay. When the second write never settles, the third request
  is never issued; when it fails with status 500, the requests run \<open>a\<close>, \<open>b\<close>, \<open>c\<close>, each
  after the previous write settled, and the report keeps that order.
\<close>

theorem serial_writes_in_order_witness:
  "snd (addWordsInSeries noOptions (\<lambda>i. if i = 1 then ReturnsThenable NeverSettles else respondsWith 200)
          3 [js ''a'', js ''b'', js ''c''])
     = [Issued (shanbayRequest noOptions (js ''a'')), Settled (js ''a'') True,
        Issued (shanbayRequest noOptions (js ''b''))]
   \<and> fst (addWordsInSeries noOptions (\<lambda>i. if i = 1 then ReturnsThenable NeverSettles else respondsWith 200)
          3 [js ''a'', js ''b'', js ''c'']) = Pending
   \<and> snd (addWordsInSeries noOptions (\<lambda>i. if i = 1 then respondsWith 500 else respondsWith 200)
          3 [js ''a'', js ''b'', js ''c''])
     = [Issued (shanbayRequest noOptions (js ''a'')), Settled (js ''a'') True,
        Issued (shanbayRequest noOptions (js ''b'')), Settled (js ''b'') False,
        Issued (shanbayRequest noOptions (js ''c'')), Settled (js ''c'') True]
   \<and> fst (addWordsInSeries noOptions (\<lambda>i. if i = 1 then respondsWith 500 else respondsWith 200)
          3 [js ''a'', js ''b'', js ''c''])
     = Resolved \<lparr>success = [js ''a'', js ''c''], failed = [(js ''b'', msg_shanbay_hint)]\<rparr>"
proof -
  let ?ws = "[js ''a'', js ''b'', js ''c'']"
  let ?h1 = "\<lambda>i::nat. if i = 1 then ReturnsThenable NeverSettles else respondsWith 200"
  let ?h2 = "\<lambda>i::nat. if i = 1 then respondsWith 500 else respondsWith 200"
  have a: "(1::nat) \<le> length ?ws" "\<forall>i<1. \<exists>r. fst (writeOf noOptions ?h1 3 ?ws i) = Resolved r"
    "1 < length ?ws \<longrightarrow> fst (writeOf noOptions ?h1 3 ?ws 1) = Pending"
    by (simp_all add: writeOf_def shanbay_write)
  have b: "(3::nat) \<le> length ?ws" "\<forall>i<3. \<exists>r. fst (writeOf noOptions ?h2 3 ?ws i) = Resolved r"
    "3 < length ?ws \<longrightarrow> fst (writeOf noOptions ?h2 3 ?ws 3) = Pending"
    by (simp_all add: writeOf_def shanbay_write)
  have m: "msg_shanbay_hint \<noteq> []" by (simp add: msg_shanbay_hint_def)
  from serial_writes_in_order [OF a] serial_writes_in_order [OF b] m show ?thesis
    by (simp add: wordEvents_def okAt_def reasonAt_def writeOf_def shanbay_write upt_rec)
qed

section \<open>The matcher and the declarative reading of a pattern\<close>

lemma iter_self: "st \<in> set (iter f n st)"
  by (cases n) simp_all

lemma iter_sound:
  assumes f: "\<And>b s b' s'. (b', s') \<in> set (f (b, s)) \<Longrightarrow> \<exists>w. s = w @ s' \<and> b' = (b \<and> w = []) \<and> S b w s'"
  shows "(b', s') \<in> set (iter f n (b, s)) \<Longrightarrow> \<exists>w. s = w @ s' \<and> b' = (b \<and> w = []) \<and> starSem S b w s'"
proof (induction n arbitrary: b s)
  case 0
  then show ?case by (auto intro: starSem_Nil)
next
  case (Suc n)
  from Suc.prems consider "(b', s') = (b, s)"
    | b1 s1 where "(b1, s1) \<in> set (f (b, s))" "length s1 < length s" "(b', s') \<in> set (iter f n (b1, s1))"
    by auto
  then show ?case
  proof cases
    case 1
    then show ?thesis by (auto intro: starSem_Nil)
  next
    case 2
    from f [OF 2(1)] obtain u where u: "s = u @ s1" "b1 = (b \<and> u = [])" "S b u s1" by blast
    with 2(2) have un: "u \<noteq> []" by auto
    with u have b1: "b1 = False" by simp
    from Suc.IH [OF 2(3)] obtain v where v: "s1 = v @ s'" "b' = (b1 \<and> v = [])" "starSem S b1 v s'"
      by blast
    have "starSem S b (u @ v) s'"
      using un u(3) v(1,3) b1 by (auto intro: starSem_Step)
    with u v un b1 show ?thesis by (intro exI [of _ "u @ v"]) simp
  qed
qed

lemma iter_complete:
  assumes f: "\<And>b w s'. S b w s' \<Longrightarrow> (b \<and> w = [], s') \<in> set (f (b, w @ s'))"
  shows "starSem S b w s' \<Longrightarrow> length (w @ s') \<le> n \<Longrightarrow> (b \<and> w = [], s') \<in> set (iter f n (b, w @ s'))"
proof (induction arbitrary: n rule: starSem.induct)
  case (starSem_Nil b post)
  then show ?case by (simp add: iter_self)
next
  case (starSem_Step u b v post)
  from starSem_Step.prems starSem_Step.hyps(1) obtain m where n: "n = Suc m"
    by (cases n) auto
  with starSem_Step.prems have m: "length (v @ post) \<le> m" using starSem_Step.hyps(1)
    by (cases u) auto
  from f [OF starSem_Step.hyps(2)] starSem_Step.hyps(1)
  have 1: "(False, v @ post) \<in> set (f (b, u @ v @ post))" by simp
  have 2: "length (v @ post) < length (u @ v @ post)" using starSem_Step.hyps(1) by (cases u) auto
  from starSem_Step.IH [OF m] have 3: "(False, post) \<in> set (iter f m (False, v @ post))" by simp
  let ?F = "filter (\<lambda>st'. length (snd st') < length (snd (b, u @ v @ post))) (f (b, u @ v @ post))"
  from 1 2 have 4: "(False, v @ post) \<in> set ?F" by simp
  from 4 3 have "(False, post) \<in> set (concat (map (iter f m) ?F))"
    unfolding set_concat set_map by blast
  then have "(False, post) \<in> set (iter f (Suc m) (b, u @ v @ post))" by simp
  with n starSem_Step.hyps(1) show ?case by simp
qed

lemma ms_sem:
  "(b', s') \<in> set (ms r (b, s)) \<longleftrightarrow> (\<exists>w. s = w @ s' \<and> b' = (b \<and> w = []) \<and> sem r b w s')"
proof (induction r arbitrary: b s b' s')
  case Eps
  show ?case by auto
next
  case Bol
  show ?case by auto
next
  case Eol
  show ?case by auto
next
  case (Cls P)
  show ?case by (cases s) auto
next
  case (Seq r1 r2)
  show ?case
  proof
    assume "(b', s') \<in> set (ms (Seq r1 r2) (b, s))"
    then obtain b1 s1 where 1: "(b1, s1) \<in> set (ms r1 (b, s))" and 2: "(b', s') \<in> set (ms r2 (b1, s1))"
      by auto
    from 1 Seq.IH(1) obtain u where u: "s = u @ s1" "b1 = (b \<and> u = [])" "sem r1 b u s1" by blast
    from 2 Seq.IH(2) obtain v where v: "s1 = v @ s'" "b' = (b1 \<and> v = [])" "sem r2 b1 v s'" by blast
    from u v have "s = (u @ v) @ s' \<and> b' = (b \<and> u @ v = []) \<and> sem (Seq r1 r2) b (u @ v) s'"
      by auto
    then show "\<exists>w. s = w @ s' \<and> b' = (b \<and> w = []) \<and> sem (Seq r1 r2) b w s'"
      by (rule exI)
  next
    assume "\<exists>w. s = w @ s' \<and> b' = (b \<and> w = []) \<and> sem (Seq r1 r2) b w s'"
    then obtain w where w0: "s = w @ s'" "b' = (b \<and> w = [])" "sem (Seq r1 r2) b w s'" by blast
    from w0(3) obtain u v where uv: "w = u @ v" "sem r1 b u (v @ s')" "sem r2 (b \<and> u = []) v s'"
      by auto
    from w0 uv have w: "s = (u @ v) @ s'" "b' = (b \<and> u @ v = [])"
      "sem r1 b u (v @ s')" "sem r2 (b \<and> u = []) v s'" by simp_all
    from w(1,3) Seq.IH(1) have 1: "(b \<and> u = [], v @ s') \<in> set (ms r1 (b, s))" by auto
    from w(4) Seq.IH(2) have 2: "((b \<and> u = []) \<and> v = [], s') \<in> set (ms r2 (b \<and> u = [], v @ s'))" by blast
    from 1 2 have "((b \<and> u = []) \<and> v = [], s') \<in> set (concat (map (ms r2) (ms r1 (b, s))))"
      unfolding set_concat set_map by blast
    with w(2) show "(b', s') \<in> set (ms (Seq r1 r2) (b, s))" by simp
  qed
next
  case (Alt r1 r2)
  show ?case using Alt.IH by auto
next
  case (Opt r)
  show ?case using Opt.IH by auto
next
  case (Star r)
  show ?case
  proof
    assume "(b', s') \<in> set (ms (Star r) (b, s))"
    then have "(b', s') \<in> set (iter (ms r) (length s) (b, s))" by simp
    then have "\<exists>w. s = w @ s' \<and> b' = (b \<and> w = []) \<and> starSem (sem r) b w s'"
      by (rule iter_sound [rotated]) (use Star.IH in blast)
    then show "\<exists>w. s = w @ s' \<and> b' = (b \<and> w = []) \<and> sem (Star r) b w s'" by simp
  next
    assume "\<exists>w. s = w @ s' \<and> b' = (b \<and> w = []) \<and> sem (Star r) b w s'"
    then obtain w where w: "s = w @ s'" "b' = (b \<and> w = [])" "starSem (sem r) b w s'" by auto
    have "(b \<and> w = [], s') \<in> set (iter (ms r) (length (w @ s')) (b, w @ s'))"
      by (rule iter_complete [OF _ w(3)]) (use Star.IH in auto)
    with w show "(b', s') \<in> set (ms (Star r) (b, s))" by simp
  qed
qed

lemma ms_nonempty: "ms r (b, s) \<noteq> [] \<longleftrightarrow> (\<exists>w q. s = w @ q \<and> sem r b w q)"
proof -
  have "ms r (b, s) \<noteq> [] \<longleftrightarrow> (\<exists>b' s'. (b', s') \<in> set (ms r (b, s)))"
    by (cases "ms r (b, s)") auto
  then show ?thesis by (auto simp: ms_sem)
qed

lemma search_sem: "search r b s \<longleftrightarrow> (\<exists>p w q. s = p @ w @ q \<and> sem r (b \<and> p = []) w q)"
proof (induction s arbitrary: b)
  case Nil
  then show ?case by (simp add: ms_nonempty)
next
  case (Cons c cs)
  show ?case
  proof
    assume "search r b (c # cs)"
    then consider "ms r (b, c # cs) \<noteq> []" | "search r False cs" by auto
    then show "\<exists>p w q. c # cs = p @ w @ q \<and> sem r (b \<and> p = []) w q"
    proof cases
      case 1
      then obtain w q where "c # cs = w @ q" "sem r b w q" by (auto simp: ms_nonempty)
      then have "c # cs = [] @ w @ q \<and> sem r (b \<and> [] = []) w q" by simp
      then show ?thesis by blast
    next
      case 2
      with Cons.IH obtain p w q where "cs = p @ w @ q" "sem r False w q" by auto
      then have "c # cs = (c # p) @ w @ q \<and> sem r (b \<and> c # p = []) w q" by simp
      then show ?thesis by blast
    qed
  next
    assume "\<exists>p w q. c # cs = p @ w @ q \<and> sem r (b \<and> p = []) w q"
    then obtain p w q where pw: "c # cs = p @ w @ q" "sem r (b \<and> p = []) w q" by blast
    show "search r b (c # cs)"
    proof (cases p)
      case Nil
      with pw have "ms r (b, c # cs) \<noteq> []" by (auto simp: ms_nonempty)
      then show ?thesis by simp
    next
      case (Cons x p')
      with pw have "cs = p' @ w @ q" "sem r False w q" by auto
      with Cons.IH have "search r False cs" by auto
      then show ?thesis by simp
    qed
  qed
qed

lemma test_sem: "test r s \<longleftrightarrow> (\<exists>p w q. s = p @ w @ q \<and> sem r (p = []) w q)"
  by (simp add: test_def search_sem)

section \<open>What the patterns of the strict word predicate accept\<close>

lemma starSem_chars:
  assumes S: "\<And>b w post. S b w post \<longleftrightarrow> (\<exists>c. w = [c] \<and> P c)"
  shows "starSem S b w post \<longleftrightarrow> (\<forall>c \<in> set w. P c)"
proof
  assume "starSem S b w post"
  then show "\<forall>c \<in> set w. P c"
    by (induction rule: starSem.induct) (auto simp: S)
next
  assume "\<forall>c \<in> set w. P c"
  then show "starSem S b w post"
  proof (induction w arbitrary: b)
    case Nil
    show ?case by (rule starSem_Nil)
  next
    case (Cons c w)
    have 1: "[c] \<noteq> []" by simp
    have 2: "S b [c] (w @ post)" using Cons.prems by (simp add: S)
    have 3: "starSem S False w post" using Cons by simp
    from starSem_Step [OF 1 2 3] show ?case by simp
  qed
qed

lemma starSem_Cls: "starSem (sem (Cls P)) b w post \<longleftrightarrow> (\<forall>c \<in> set w. P c)"
  by (rule starSem_chars) simp

lemma sem_Plus_Cls: "sem (Plus (Cls P)) b w post \<longleftrightarrow> w \<noteq> [] \<and> (\<forall>c \<in> set w. P c)"
proof -
  have "sem (Plus (Cls P)) b w post \<longleftrightarrow>
      (\<exists>u v. w = u @ v \<and> sem (Cls P) b u (v @ post) \<and> starSem (sem (Cls P)) (b \<and> u = []) v post)"
    by (simp only: Plus_def sem.simps)
  also have "\<dots> \<longleftrightarrow> (\<exists>u v. w = u @ v \<and> (\<exists>c. u = [c] \<and> P c) \<and> (\<forall>c \<in> set v. P c))"
    by (simp only: starSem_Cls sem.simps)
  also have "\<dots> \<longleftrightarrow> w \<noteq> [] \<and> (\<forall>c \<in> set w. P c)"
  proof
    assume "\<exists>u v. w = u @ v \<and> (\<exists>c. u = [c] \<and> P c) \<and> (\<forall>c \<in> set v. P c)"
    then show "w \<noteq> [] \<and> (\<forall>c \<in> set w. P c)" by auto
  next
    assume a: "w \<noteq> [] \<and> (\<forall>c \<in> set w. P c)"
    then obtain c v where "w = c # v" by (cases w) auto
    with a have "w = [c] @ v \<and> (\<exists>d. [c] = [d] \<and> P d) \<and> (\<forall>c \<in> set v. P c)" by simp
    then show "\<exists>u v. w = u @ v \<and> (\<exists>c. u = [c] \<and> P c) \<and> (\<forall>c \<in> set v. P c)" by blast
  qed
  finally show ?thesis .
qed

lemma sem_lit: "sem (lit c) b w post \<longleftrightarrow> w = [cu c]"
  by (auto simp: lit_def)

lemma sem_liti: "sem (liti c) b w post \<longleftrightarrow> (\<exists>x. w = [x] \<and> canonASCII x = canonASCII (cu c))"
  by (auto simp: liti_def)

lemma sem_lits: "sem (lits cs) b w post \<longleftrightarrow> w = js cs"
proof (induction cs arbitrary: b w)
  case Nil
  show ?case by (simp add: lits_def js_def)
next
  case (Cons c cs)
  show ?case
  proof (cases cs)
    case Nil
    then show ?thesis by (auto simp: lits_def js_def sem_lit cu_def)
  next
    case (Cons d ds)
    then have "lits (c # cs) = Seq (lit c) (lits cs)" by (simp add: lits_def)
    then show ?thesis using Cons.IH by (auto simp: sem_lit js_def cu_def)
  qed
qed

lemma sem_litsi: "sem (litsi cs) b w post \<longleftrightarrow> map canonASCII w = map canonASCII (js cs)"
proof (induction cs arbitrary: b w)
  case Nil
  show ?case by (simp add: litsi_def js_def)
next
  case (Cons c cs)
  show ?case
  proof (cases cs)
    case Nil
    then show ?thesis by (auto simp: litsi_def js_def sem_liti cu_def)
  next
    case (Cons d ds)
    then have e: "litsi (c # cs) = Seq (liti c) (litsi cs)" by (simp add: litsi_def)
    show ?thesis
    proof
      assume "sem (litsi (c # cs)) b w post"
      then show "map canonASCII w = map canonASCII (js (c # cs))"
        using Cons.IH by (auto simp: e sem_liti js_def cu_def)
    next
      assume a: "map canonASCII w = map canonASCII (js (c # cs))"
      then obtain x w' where w: "w = x # w'" by (cases w) (auto simp: js_def)
      with a have "sem (liti c) b [x] (w' @ post)" "sem (litsi cs) (b \<and> [x] = []) w' post"
        using Cons.IH by (auto simp: sem_liti js_def cu_def)
      then have "sem (Seq (liti c) (litsi cs)) b ([x] @ w') post"
        unfolding sem.simps by blast
      with w e show "sem (litsi (c # cs)) b w post" by simp
    qed
  qed
qed

lemma test_Cls: "test (Cls P) s \<longleftrightarrow> (\<exists>c \<in> set s. P c)"
proof
  assume "test (Cls P) s"
  then obtain p w q where "s = p @ w @ q" "sem (Cls P) (p = []) w q"
    unfolding test_sem by blast
  then show "\<exists>c \<in> set s. P c" by auto
next
  assume "\<exists>c \<in> set s. P c"
  then obtain c where c: "c \<in> set s" "P c" by blast
  then obtain p q where "s = p @ c # q" by (auto simp: in_set_conv_decomp)
  with c have "s = p @ [c] @ q \<and> sem (Cls P) (p = []) [c] q" by simp
  then show "test (Cls P) s" unfolding test_sem by blast
qed


lemma test_Bol: "test (Seq Bol r) s \<longleftrightarrow> (\<exists>w q. s = w @ q \<and> sem r True w q)"
proof
  assume "test (Seq Bol r) s"
  then obtain p w q where 1: "s = p @ w @ q" and 2: "sem (Seq Bol r) (p = []) w q"
    unfolding test_sem by blast
  from 2 obtain u v where "w = u @ v" "sem Bol (p = []) u (v @ q)" "sem r ((p = []) \<and> u = []) v q"
    by auto
  with 1 have "s = v @ q \<and> sem r True v q" by simp
  then show "\<exists>w q. s = w @ q \<and> sem r True w q" by blast
next
  assume "\<exists>w q. s = w @ q \<and> sem r True w q"
  then obtain w q where w: "s = w @ q" "sem r True w q" by blast
  then have "sem Bol ([] = []) [] (w @ q) \<and> sem r (([]::jsstring) = [] \<and> ([]::jsstring) = []) w q" by simp
  then have "sem (Seq Bol r) (([]::jsstring) = []) ([] @ w) q" unfolding sem.simps by blast
  with w have "s = [] @ w @ q \<and> sem (Seq Bol r) (([]::jsstring) = []) w q" by simp
  then show "test (Seq Bol r) s" unfolding test_sem by blast
qed

lemma test_Alt: "test (Alt r1 r2) s \<longleftrightarrow> test r1 s \<or> test r2 s"
  unfolding test_sem by auto

lemma sem_Seq_Eol: "sem (Seq r Eol) b w post \<longleftrightarrow> sem r b w [] \<and> post = []"
  by auto

lemma letter_wordch: "isLetter c \<Longrightarrow> isWordCh c"
  by (simp add: isWordCh_def)

lemma sem_reToken: "sem reToken b w post \<longleftrightarrow> lettersShape w"
proof
  assume "sem reToken b w post"
  then obtain u v where uv: "w = u @ v" "sem (Cls isLetter) b u (v @ post)"
    "sem (Opt (Seq (Star (Cls isWordCh)) (Cls isLetter))) (b \<and> u = []) v post"
    unfolding reToken_def sem.simps(5) by blast
  from uv(2) obtain c where c: "u = [c]" "isLetter c" by auto
  from uv(3) consider "v = []" | "sem (Seq (Star (Cls isWordCh)) (Cls isLetter)) (b \<and> u = []) v post"
    by auto
  then show "lettersShape w"
  proof cases
    case 1
    with uv c show ?thesis by (simp add: lettersShape_def letter_wordch)
  next
    case 2
    then obtain x y where xy: "v = x @ y" "starSem (sem (Cls isWordCh)) (b \<and> u = []) x (y @ post)"
      "sem (Cls isLetter) ((b \<and> u = []) \<and> x = []) y post"
      unfolding sem.simps(5,8) by blast
    from xy(3) obtain d where d: "y = [d]" "isLetter d" by auto
    from xy(2) have "\<forall>z \<in> set x. isWordCh z" by (simp add: starSem_Cls)
    with uv(1) c xy(1) d show ?thesis by (simp add: lettersShape_def letter_wordch)
  qed
next
  assume l: "lettersShape w"
  then obtain c m where w: "w = c # m" by (cases w) (auto simp: lettersShape_def)
  with l have c: "isLetter c" by (simp add: lettersShape_def)
  have "sem (Opt (Seq (Star (Cls isWordCh)) (Cls isLetter))) (b \<and> [c] = []) m post"
  proof (cases "m = []")
    case True
    then show ?thesis by simp
  next
    case False
    then have m: "m = butlast m @ [last m]" by simp
    from l w False have lm: "isLetter (last m)" by (simp add: lettersShape_def)
    from l w have "\<forall>z \<in> set (butlast m). isWordCh z"
      by (auto simp: lettersShape_def dest: in_set_butlastD)
    then have 1: "starSem (sem (Cls isWordCh)) (b \<and> [c] = []) (butlast m) ([last m] @ post)"
      by (simp add: starSem_Cls)
    have 2: "sem (Cls isLetter) ((b \<and> [c] = []) \<and> butlast m = []) [last m] post" using lm by simp
    from 1 2 have "sem (Seq (Star (Cls isWordCh)) (Cls isLetter)) (b \<and> [c] = []) (butlast m @ [last m]) post"
      unfolding sem.simps(5,8) by blast
    with m show ?thesis unfolding sem.simps(7) by metis
  qed
  moreover have "sem (Cls isLetter) b [c] (m @ post)" using c by simp
  ultimately have "sem reToken b ([c] @ m) post"
    unfolding reToken_def sem.simps(5) by blast
  with w show "sem reToken b w post" by simp
qed

lemma test_reWord: "test reWord s \<longleftrightarrow> lettersShape s"
proof -
  have e: "reWord = Seq Bol (Seq reToken Eol)" by (simp add: reWord_def)
  have "test reWord s \<longleftrightarrow> (\<exists>w q. s = w @ q \<and> sem (Seq reToken Eol) True w q)"
    unfolding e by (rule test_Bol)
  also have "\<dots> \<longleftrightarrow> (\<exists>w q. s = w @ q \<and> lettersShape w \<and> q = [])"
    by (simp only: sem_Seq_Eol sem_reToken)
  also have "\<dots> \<longleftrightarrow> lettersShape s" by auto
  finally show ?thesis .
qed

lemma test_lits: "test (lits cs) s \<longleftrightarrow> sublist (js cs) s"
  unfolding test_sem sem_lits sublist_def by auto

lemma test_reDoubled: "test reDoubled s \<longleftrightarrow> doubled s"
proof -
  have "Seq (lit (CHR 0x27)) (lit (CHR 0x27)) = lits [CHR 0x27, CHR 0x27]" by (simp add: lits_def)
  then have "test reDoubled s \<longleftrightarrow> sublist (js ''--'') s \<or> sublist (js [CHR 0x27, CHR 0x27]) s"
    by (simp add: reDoubled_def test_Alt test_lits)
  then show ?thesis by (simp add: doubled_def js_def)
qed


lemma cu_values: "cu CHR ''@'' = 64" "cu CHR ''.'' = 46" "cu CHR '':'' = 58" "cu CHR ''/'' = 47"
  by (simp_all add: cu_def)

lemma test_reEmail: "test reEmail s \<longleftrightarrow> emailShaped s"
proof -
  let ?N = "Cls notSpaceAt"
  let ?E4 = "Seq (Plus ?N) Eol"
  let ?E3 = "Seq (lit CHR ''.'') ?E4"
  let ?E2 = "Seq (Plus ?N) ?E3"
  let ?E1 = "Seq (lit CHR ''@'') ?E2"
  let ?E = "Seq (Plus ?N) ?E1"
  have e: "reEmail = Seq Bol ?E" by (simp add: reEmail_def)
  have 4: "sem ?E4 b w post \<longleftrightarrow> w \<noteq> [] \<and> (\<forall>x \<in> set w. notSpaceAt x) \<and> post = []" for b w post
    by (simp add: sem_Seq_Eol sem_Plus_Cls del: sem.simps)
  have 3: "sem ?E3 b w post \<longleftrightarrow> (\<exists>c. w = 46 # c \<and> c \<noteq> [] \<and> (\<forall>x \<in> set c. notSpaceAt x) \<and> post = [])"
    for b w post
    by (subst sem.simps(5)) (auto simp: 4 sem_Plus_Cls sem_lit cu_values simp del: sem.simps)
  have 2: "sem ?E2 b w post \<longleftrightarrow>
      (\<exists>d c. w = d @ 46 # c \<and> d \<noteq> [] \<and> (\<forall>x \<in> set d. notSpaceAt x)
         \<and> c \<noteq> [] \<and> (\<forall>x \<in> set c. notSpaceAt x) \<and> post = [])" for b w post
    by (subst sem.simps(5)) (auto simp: 3 sem_Plus_Cls sem_lit cu_values simp del: sem.simps)
  have 1: "sem ?E1 b w post \<longleftrightarrow>
      (\<exists>d c. w = 64 # d @ 46 # c \<and> d \<noteq> [] \<and> (\<forall>x \<in> set d. notSpaceAt x)
         \<and> c \<noteq> [] \<and> (\<forall>x \<in> set c. notSpaceAt x) \<and> post = [])" for b w post
    by (subst sem.simps(5)) (auto simp: 2 sem_Plus_Cls sem_lit cu_values simp del: sem.simps)
  have 0: "sem ?E b w post \<longleftrightarrow>
      (\<exists>a d c. w = a @ 64 # d @ 46 # c \<and> a \<noteq> [] \<and> (\<forall>x \<in> set a. notSpaceAt x)
         \<and> d \<noteq> [] \<and> (\<forall>x \<in> set d. notSpaceAt x)
         \<and> c \<noteq> [] \<and> (\<forall>x \<in> set c. notSpaceAt x) \<and> post = [])" for b w post
    by (subst sem.simps(5)) (auto simp: 1 sem_Plus_Cls sem_lit cu_values simp del: sem.simps)
  have "test reEmail s \<longleftrightarrow> (\<exists>w q. s = w @ q \<and> sem ?E True w q)"
    unfolding e by (rule test_Bol)
  also have "\<dots> \<longleftrightarrow> (\<exists>a d c. s = a @ 64 # d @ 46 # c \<and> a \<noteq> [] \<and> (\<forall>x \<in> set a. notSpaceAt x)
         \<and> d \<noteq> [] \<and> (\<forall>x \<in> set d. notSpaceAt x)
         \<and> c \<noteq> [] \<and> (\<forall>x \<in> set c. notSpaceAt x))"
  proof
    assume "\<exists>w q. s = w @ q \<and> sem ?E True w q"
    then obtain w q where wq: "s = w @ q" "sem ?E True w q" by blast
    from wq(2) [unfolded 0] obtain a d c where
      "w = a @ 64 # d @ 46 # c \<and> a \<noteq> [] \<and> (\<forall>x \<in> set a. notSpaceAt x)
         \<and> d \<noteq> [] \<and> (\<forall>x \<in> set d. notSpaceAt x)
         \<and> c \<noteq> [] \<and> (\<forall>x \<in> set c. notSpaceAt x) \<and> q = []" by blast
    with wq(1) have "s = a @ 64 # d @ 46 # c \<and> a \<noteq> [] \<and> (\<forall>x \<in> set a. notSpaceAt x)
         \<and> d \<noteq> [] \<and> (\<forall>x \<in> set d. notSpaceAt x)
         \<and> c \<noteq> [] \<and> (\<forall>x \<in> set c. notSpaceAt x)" by simp
    then show "\<exists>a d c. s = a @ 64 # d @ 46 # c \<and> a \<noteq> [] \<and> (\<forall>x \<in> set a. notSpaceAt x)
         \<and> d \<noteq> [] \<and> (\<forall>x \<in> set d. notSpaceAt x)
         \<and> c \<noteq> [] \<and> (\<forall>x \<in> set c. notSpaceAt x)" by blast
  next
    assume "\<exists>a d c. s = a @ 64 # d @ 46 # c \<and> a \<noteq> [] \<and> (\<forall>x \<in> set a. notSpaceAt x)
         \<and> d \<noteq> [] \<and> (\<forall>x \<in> set d. notSpaceAt x)
         \<and> c \<noteq> [] \<and> (\<forall>x \<in> set c. notSpaceAt x)"
    then have "sem ?E True s []" unfolding 0 by simp
    then have "s = s @ [] \<and> sem ?E True s []" by simp
    then show "\<exists>w q. s = w @ q \<and> sem ?E True w q" by blast
  qed
  also have "\<dots> \<longleftrightarrow> emailShaped s"
    unfolding emailShaped_def notSpaceAt_def by (simp add: ball_Un) blast
  finally show ?thesis .
qed


lemma canon_fix: "canonASCII x = y \<Longrightarrow> \<not> isLetter y \<Longrightarrow> x = y"
  by (auto simp: canonASCII_def isLetter_def isLowerAZ_def isUpperAZ_def split: if_splits)

lemma map_canon_fix:
  "map canonASCII v = p \<Longrightarrow> \<forall>y \<in> set p. \<not> isLetter y \<Longrightarrow> v = p"
proof (induction v arbitrary: p)
  case Nil
  then show ?case by simp
next
  case (Cons a v)
  from Cons.prems(1) obtain y p' where p: "p = y # p'" "canonASCII a = y" "map canonASCII v = p'"
    by auto
  with Cons.prems(2) have "a = y" by (auto intro: canon_fix)
  moreover from p Cons.prems(2) have "v = p'" by (auto intro: Cons.IH)
  ultimately show ?case using p by simp
qed

lemma prefixCI:
  "(\<exists>w q. s = w @ q \<and> map canonASCII w = map canonASCII (js p)) \<longleftrightarrow> startsWithCI p s"
proof
  assume "\<exists>w q. s = w @ q \<and> map canonASCII w = map canonASCII (js p)"
  then obtain w q where w: "s = w @ q" "map canonASCII w = map canonASCII (js p)" by blast
  from w(2) have "length w = length p" by (metis length_map js_def)
  with w show "startsWithCI p s" by (simp add: startsWithCI_def)
next
  assume "startsWithCI p s"
  then have "s = take (length p) s @ drop (length p) s
      \<and> map canonASCII (take (length p) s) = map canonASCII (js p)"
    by (simp add: startsWithCI_def)
  then show "\<exists>w q. s = w @ q \<and> map canonASCII w = map canonASCII (js p)" by blast
qed

lemma sem_scheme_tail:
  "sem (Seq (Opt (liti CHR ''s'')) (lits ''://'')) b w post \<longleftrightarrow>
     w = js ''://'' \<or> (\<exists>x. canonASCII x = canonASCII (cu CHR ''s'') \<and> w = x # js ''://'')"
  by (subst sem.simps(5)) (auto simp: sem_lits sem_liti simp del: sem.simps(4,5,8))

lemma split4:
  assumes "map canonASCII w = a # b # c # d # rest"
  shows "map canonASCII (take 4 w) = [a, b, c, d] \<and> map canonASCII (drop 4 w) = rest"
proof -
  from assms obtain w1 w2 w3 w4 w' where "w = w1 # w2 # w3 # w4 # w'"
    by (auto simp: map_eq_Cons_conv)
  with assms show ?thesis by simp
qed

lemma sem_http:
  "sem (Seq (litsi ''http'') (Seq (Opt (liti CHR ''s'')) (lits ''://''))) b w post \<longleftrightarrow>
     map canonASCII w = map canonASCII (js ''http://'') \<or> map canonASCII w = map canonASCII (js ''https://'')"
  (is "?L \<longleftrightarrow> ?A \<or> ?B")
proof
  assume ?L
  then obtain u v where uv: "w = u @ v" "map canonASCII u = map canonASCII (js ''http'')"
    "v = js ''://'' \<or> (\<exists>x. canonASCII x = canonASCII (cu CHR ''s'') \<and> v = x # js ''://'')"
    by (subst (asm) sem.simps(5)) (auto simp: sem_litsi sem_scheme_tail simp del: sem.simps)
  from uv(3) show "?A \<or> ?B"
  proof
    assume "v = js ''://''"
    with uv(1,2) have ?A by (simp add: js_def canonASCII_def isLowerAZ_def)
    then show ?thesis ..
  next
    assume "\<exists>x. canonASCII x = canonASCII (cu CHR ''s'') \<and> v = x # js ''://''"
    then obtain x where "canonASCII x = canonASCII (cu CHR ''s'')" "v = x # js ''://''" by blast
    with uv(1,2) have ?B by (simp add: js_def cu_def canonASCII_def isLowerAZ_def)
    then show ?thesis ..
  qed
next
  assume ab: "?A \<or> ?B"
  have nl: "\<forall>y \<in> set (js ''://''). \<not> isLetter y"
    by (simp add: js_def isLetter_def isUpperAZ_def isLowerAZ_def)
  have "\<exists>u v. w = u @ v \<and> map canonASCII u = map canonASCII (js ''http'')
      \<and> (v = js ''://'' \<or> (\<exists>x. canonASCII x = canonASCII (cu CHR ''s'') \<and> v = x # js ''://''))"
    using ab
  proof
    assume ?A
    then have m: "map canonASCII w = 72 # 84 # 84 # 80 # js ''://''"
      by (simp add: js_def canonASCII_def isLowerAZ_def)
    from split4 [OF m] have t: "map canonASCII (take 4 w) = [72, 84, 84, 80]"
      and d: "map canonASCII (drop 4 w) = js ''://''" by simp_all
    from map_canon_fix [OF d nl] have "drop 4 w = js ''://''" .
    moreover have "map canonASCII (take 4 w) = map canonASCII (js ''http'')"
      using t by (simp add: js_def canonASCII_def isLowerAZ_def)
    moreover have "w = take 4 w @ drop 4 w" by simp
    ultimately show ?thesis by blast
  next
    assume ?B
    then have m: "map canonASCII w = 72 # 84 # 84 # 80 # 83 # js ''://''"
      by (simp add: js_def canonASCII_def isLowerAZ_def)
    from split4 [OF m] have t: "map canonASCII (take 4 w) = [72, 84, 84, 80]"
      and d: "map canonASCII (drop 4 w) = 83 # js ''://''" by simp_all
    from d obtain x v' where xv: "drop 4 w = x # v'" "canonASCII x = 83" "map canonASCII v' = js ''://''"
      by (auto simp: map_eq_Cons_conv)
    from map_canon_fix [OF xv(3) nl] have "v' = js ''://''" .
    with xv have "\<exists>x. canonASCII x = canonASCII (cu CHR ''s'') \<and> drop 4 w = x # js ''://''"
      by (simp add: cu_def canonASCII_def isLowerAZ_def)
    moreover have "map canonASCII (take 4 w) = map canonASCII (js ''http'')"
      using t by (simp add: js_def canonASCII_def isLowerAZ_def)
    moreover have "w = take 4 w @ drop 4 w" by simp
    ultimately show ?thesis by blast
  qed
  then show ?L
    by (subst sem.simps(5)) (auto simp: sem_litsi sem_scheme_tail simp del: sem.simps)
qed

lemma sem_www:
  "sem (Seq (litsi ''www'') (lit CHR ''.'')) b w post \<longleftrightarrow>
     map canonASCII w = map canonASCII (js ''www.'')"
  (is "?L \<longleftrightarrow> ?A")
proof
  assume ?L
  then obtain u where "w = u @ [46]" "map canonASCII u = map canonASCII (js ''www'')"
    by (subst (asm) sem.simps(5)) (auto simp: sem_litsi sem_lit cu_values simp del: sem.simps)
  then show ?A by (simp add: js_def canonASCII_def isLowerAZ_def)
next
  assume ?A
  then have m: "map canonASCII w = [87, 87, 87, 46]"
    by (simp add: js_def canonASCII_def isLowerAZ_def)
  then obtain a b c d where w: "w = [a, b, c, d]" by (auto simp: map_eq_Cons_conv)
  with m have "canonASCII d = 46" by simp
  then have "d = 46" by (rule canon_fix) (simp add: isLetter_def isUpperAZ_def isLowerAZ_def)
  with w m have "w = [a, b, c] @ [46] \<and> map canonASCII [a, b, c] = map canonASCII (js ''www'')"
    by (simp add: js_def canonASCII_def isLowerAZ_def)
  then show ?L
    by (subst sem.simps(5)) (auto simp: sem_litsi sem_lit cu_values simp del: sem.simps)
qed

lemma test_reUrl: "test reUrl s \<longleftrightarrow> urlShaped s"
proof -
  let ?H = "Seq (litsi ''http'') (Seq (Opt (liti CHR ''s'')) (lits ''://''))"
  let ?W = "Seq (litsi ''www'') (lit CHR ''.'')"
  have e: "reUrl = Alt (Seq Bol (Alt ?H ?W)) (lits ''://'')" by (simp add: reUrl_def)
  have "test (Seq Bol (Alt ?H ?W)) s \<longleftrightarrow>
      (\<exists>w q. s = w @ q \<and> (sem ?H True w q \<or> sem ?W True w q))"
    by (simp only: test_Bol sem.simps(6))
  also have "\<dots> \<longleftrightarrow> (\<exists>w q. s = w @ q \<and> map canonASCII w = map canonASCII (js ''http://''))
      \<or> (\<exists>w q. s = w @ q \<and> map canonASCII w = map canonASCII (js ''https://''))
      \<or> (\<exists>w q. s = w @ q \<and> map canonASCII w = map canonASCII (js ''www.''))"
    unfolding sem_http sem_www by blast
  also have "\<dots> \<longleftrightarrow> startsWithCI ''http://'' s \<or> startsWithCI ''https://'' s \<or> startsWithCI ''www.'' s"
    by (simp only: prefixCI)
  finally have b: "test (Seq Bol (Alt ?H ?W)) s \<longleftrightarrow>
      startsWithCI ''http://'' s \<or> startsWithCI ''https://'' s \<or> startsWithCI ''www.'' s" .
  show ?thesis
    unfolding e test_Alt b test_lits urlShaped_def by blast
qed

section \<open>The strict word predicate and the rule of the specification\<close>

lemma isLikelyEnglishWord_spec: "isLikelyEnglishWord s \<longleftrightarrow> strictWordSpec (trim s)"
proof (cases "s = []")
  case True
  then show ?thesis by (simp add: isLikelyEnglishWord_def strictWordSpec_def)
next
  case False
  have l: "1 \<le> length t \<and> length t \<le> 64 \<longleftrightarrow> \<not> (length t = 0 \<or> length t > 64)" for t :: jsstring
    by (cases t) auto
  show ?thesis
    unfolding isLikelyEnglishWord_def strictWordSpec_def Let_def reSpace_def reCJK_def
      reDigitUnderscore_def test_reEmail test_reUrl test_Cls test_reWord test_reDoubled l
    using False by (auto simp: Suc_le_eq)
qed

text \<open>
  A string that passes the strict word predicate is, once trimmed, left as it is by
  \<open>encodeURIComponent\<close>: the URL of the Youdao request can always be built for a word of
  the extraction.
\<close>

lemma encodeURIComponent_unreserved:
  "\<forall>c \<in> set s. uriUnreserved c \<Longrightarrow> encodeURIComponent s = Some s"
  by (induction s) simp_all

lemma encodeURIComponent_word:
  assumes "isLikelyEnglishWord w"
  shows "encodeURIComponent (trim w) = Some (trim w)"
proof -
  from assms have "strictWordSpec (trim w)" by (simp add: isLikelyEnglishWord_spec)
  then have "\<forall>c \<in> set (trim w). isWordCh c" by (simp add: strictWordSpec_def lettersShape_def)
  then have "\<forall>c \<in> set (trim w). uriUnreserved c"
    by (auto simp: isWordCh_def uriUnreserved_def)
  then show ?thesis by (rule encodeURIComponent_unreserved)
qed

lemma in_set_dropWhile: "c \<in> set xs \<Longrightarrow> \<not> P c \<Longrightarrow> c \<in> set (dropWhile P xs)"
  by (induction xs) auto

lemma set_trim_nonspace: "c \<in> set s \<Longrightarrow> \<not> isSpace c \<Longrightarrow> c \<in> set (trim s)"
  by (simp add: trim_def in_set_dropWhile)

lemma nonword_char_rejects:
  assumes "c \<in> set s" and "\<not> isSpace c" and "\<not> isWordCh c"
  shows "\<not> isLikelyEnglishWord s"
proof -
  from assms(1,2) have "c \<in> set (trim s)" by (rule set_trim_nonspace)
  with assms(3) have "\<not> lettersShape (trim s)" by (auto simp: lettersShape_def)
  then show ?thesis by (simp add: isLikelyEnglishWord_spec strictWordSpec_def)
qed

lemma canon_member:
  "map canonASCII t = p \<Longrightarrow> y \<in> set p \<Longrightarrow> \<not> isLetter y \<Longrightarrow> y \<in> set t"
proof (induction t arbitrary: p)
  case Nil
  then show ?case by simp
next
  case (Cons a t)
  from Cons.prems(1) obtain p' where p: "p = canonASCII a # p'" "map canonASCII t = p'" by auto
  show ?case
  proof (cases "y = canonASCII a")
    case True
    with Cons.prems(3) have "a = y" by (auto intro: canon_fix)
    then show ?thesis by simp
  next
    case False
    with p Cons.prems(2) have "y \<in> set p'" by simp
    from Cons.IH [OF p(2) this Cons.prems(3)] show ?thesis by simp
  qed
qed

lemma startsWithCI_member:
  assumes "startsWithCI p s" and "y \<in> set (js p)" and "\<not> isLetter y"
  shows "y \<in> set s"
proof -
  from assms(2,3) have "y \<in> set (map canonASCII (js p))"
    by (auto simp: canonASCII_def isLetter_def image_iff intro!: bexI [of _ y])
  with assms(1) have "y \<in> set (map canonASCII (take (length p) s))" by (simp add: startsWithCI_def)
  then have "y \<in> set (take (length p) s)" by (rule canon_member [OF refl _ assms(3)])
  then show ?thesis by (rule in_set_takeD)
qed

lemma emailShaped_at: "emailShaped s \<Longrightarrow> 64 \<in> set s"
  by (auto simp: emailShaped_def)

lemma urlShaped_punct: "urlShaped s \<Longrightarrow> 58 \<in> set s \<or> 46 \<in> set s"
proof -
  assume "urlShaped s"
  then consider "startsWithCI ''http://'' s" | "startsWithCI ''https://'' s"
    | "startsWithCI ''www.'' s" | "sublist (js ''://'') s"
    by (auto simp: urlShaped_def)
  then show ?thesis
  proof cases
    case 1
    then have "58 \<in> set s"
      by (rule startsWithCI_member) (simp_all add: js_def isLetter_def isUpperAZ_def isLowerAZ_def)
    then show ?thesis ..
  next
    case 2
    then have "58 \<in> set s"
      by (rule startsWithCI_member) (simp_all add: js_def isLetter_def isUpperAZ_def isLowerAZ_def)
    then show ?thesis ..
  next
    case 3
    then have "46 \<in> set s"
      by (rule startsWithCI_member) (simp_all add: js_def isLetter_def isUpperAZ_def isLowerAZ_def)
    then show ?thesis ..
  next
    case 4
    then have "58 \<in> set s" by (auto simp: sublist_def js_def)
    then show ?thesis ..
  qed
qed

lemma shaped_rejects: "emailShaped s \<or> urlShaped s \<Longrightarrow> \<not> isLikelyEnglishWord s"
proof -
  assume "emailShaped s \<or> urlShaped s"
  then obtain c where "c \<in> set s" "c = 64 \<or> c = 58 \<or> c = 46"
    using emailShaped_at urlShaped_punct by blast
  then show ?thesis
    by (rule_tac nonword_char_rejects [of c])
      (auto simp: isSpace_def isWordCh_def isLetter_def isUpperAZ_def isLowerAZ_def)
qed

text \<open>
  C3, as the code has it. \<open>isLikelyEnglishWord\<close> accepts a string exactly when its
  trimmed form satisfies the strict word rule of the specification. It rejects every
  string that contains a digit, an underscore or a CJK code unit, every string whose
  trimmed form contains whitespace, and every string that is email-shaped or URL-shaped,
  trimmed or not.
\<close>

theorem strict_word_characterised:
  "(isLikelyEnglishWord s \<longleftrightarrow> strictWordSpec (trim s))
   \<and> ((\<exists>c \<in> set s. isDigitUnderscore c \<or> isCJK c) \<longrightarrow> \<not> isLikelyEnglishWord s)
   \<and> ((\<exists>c \<in> set (trim s). isSpace c) \<longrightarrow> \<not> isLikelyEnglishWord s)
   \<and> (emailShaped s \<or> urlShaped s \<or> emailShaped (trim s) \<or> urlShaped (trim s)
        \<longrightarrow> \<not> isLikelyEnglishWord s)"
proof (intro conjI impI)
  show "isLikelyEnglishWord s \<longleftrightarrow> strictWordSpec (trim s)" by (rule isLikelyEnglishWord_spec)
next
  assume "\<exists>c \<in> set s. isDigitUnderscore c \<or> isCJK c"
  then obtain c where c: "c \<in> set s" "isDigitUnderscore c \<or> isCJK c" by blast
  from c(2) have "\<not> isSpace c" "\<not> isWordCh c"
    by (auto simp: isDigitUnderscore_def isCJK_def isSpace_def isWordCh_def isLetter_def
        isUpperAZ_def isLowerAZ_def)
  with c(1) show "\<not> isLikelyEnglishWord s" by (rule nonword_char_rejects)
next
  assume "\<exists>c \<in> set (trim s). isSpace c"
  then show "\<not> isLikelyEnglishWord s"
    by (auto simp: isLikelyEnglishWord_spec strictWordSpec_def)
next
  assume "emailShaped s \<or> urlShaped s \<or> emailShaped (trim s) \<or> urlShaped (trim s)"
  then consider "emailShaped s \<or> urlShaped s" | "emailShaped (trim s) \<or> urlShaped (trim s)"
    by blast
  then show "\<not> isLikelyEnglishWord s"
  proof cases
    case 1
    then show ?thesis by (rule shaped_rejects)
  next
    case 2
    then show ?thesis by (auto simp: isLikelyEnglishWord_spec strictWordSpec_def)
  qed
qed

text \<open>
  A hyphenated word is accepted; a string with a digit, one with an inner space and an
  email address are rejected.
\<close>

theorem strict_word_characterised_witness:
  "isLikelyEnglishWord (js ''mother-in-law'') \<and> strictWordSpec (trim (js ''mother-in-law''))
   \<and> \<not> isLikelyEnglishWord (js ''b2b'') \<and> \<not> isLikelyEnglishWord (js ''ice cream'')
   \<and> \<not> isLikelyEnglishWord (js ''a@b.io'') \<and> \<not> strictWordSpec (trim (js ''a@b.io''))"
proof -
  have 1: "isLikelyEnglishWord (js ''mother-in-law'')" by (simp add: ev)
  have 2: "\<exists>c \<in> set (js ''b2b''). isDigitUnderscore c \<or> isCJK c"
    by (simp add: js_def isDigitUnderscore_def)
  have 3: "\<exists>c \<in> set (trim (js ''ice cream'')). isSpace c"
    by (simp add: ev)
  have 4: "emailShaped (js ''a@b.io'')"
    unfolding emailShaped_def
    by (rule exI [of _ "js ''a''"], rule exI [of _ "js ''b''"], rule exI [of _ "js ''io''"])
      (simp add: js_def isSpace_def)
  from strict_word_characterised [of "js ''mother-in-law''"] strict_word_characterised [of "js ''b2b''"]
    strict_word_characterised [of "js ''ice cream''"] strict_word_characterised [of "js ''a@b.io''"]
    1 2 3 4
  show ?thesis by blast
qed

text \<open>
  A string can contain whitespace and be accepted: the predicate trims its argument
  first, so the word \<open>hello\<close> with a leading space passes.
\<close>

theorem padded_word_is_accepted:
  "isLikelyEnglishWord (js '' hello'') \<and> 32 \<in> set (js '' hello'') \<and> isSpace 32"
  by (simp add: ev)

section \<open>Properties of the local fallback tokenizer\<close>

lemma iter_Cls_stop:
  "rest = [] \<or> \<not> P (hd rest) \<Longrightarrow> iter (ms (Cls P)) n (b, rest) = [(b, rest)]"
  by (cases n; cases rest) auto

lemma iter_Cls_step:
  "P x \<Longrightarrow> iter (ms (Cls P)) (Suc n) (b, x # cs) = iter (ms (Cls P)) n (False, cs) @ [(b, x # cs)]"
  by simp

lemma token_tail:
  assumes "\<forall>x \<in> set m. isWordCh x" and "m \<noteq> []" and "isLetter (last m)"
    and "rest = [] \<or> \<not> isWordCh (hd rest)" and "length (m @ rest) \<le> n"
  shows "\<exists>ys. concat (map (ms (Cls isLetter)) (iter (ms (Cls isWordCh)) n (b, m @ rest))) = (False, rest) # ys"
  using assms
proof (induction m arbitrary: n b)
  case Nil
  then show ?case by simp
next
  case (Cons x m)
  from Cons.prems(5) obtain n' where n: "n = Suc n'" and n': "length (m @ rest) \<le> n'"
    by (cases n) auto
  from Cons.prems(1) have x: "isWordCh x" by simp
  have step: "iter (ms (Cls isWordCh)) n (b, (x # m) @ rest)
      = iter (ms (Cls isWordCh)) n' (False, m @ rest) @ [(b, x # m @ rest)]"
    unfolding n using x by (simp only: append_Cons iter_Cls_step)
  show ?case
  proof (cases "m = []")
    case True
    with Cons.prems(3) have lx: "isLetter x" by simp
    from Cons.prems(4) have nl: "ms (Cls isLetter) (False, rest) = []"
      by (cases rest) (auto simp: isWordCh_def)
    have st: "iter (ms (Cls isWordCh)) n' (False, rest) = [(False, rest)]"
      using Cons.prems(4) by (rule iter_Cls_stop)
    have hx: "ms (Cls isLetter) (b, x # rest) = [(False, rest)]" using lx by simp
    have "iter (ms (Cls isWordCh)) n (b, (x # m) @ rest) = [(False, rest), (b, x # rest)]"
      using step st True by (simp del: ms.simps)
    then have "concat (map (ms (Cls isLetter)) (iter (ms (Cls isWordCh)) n (b, (x # m) @ rest)))
        = [(False, rest)]"
      by (simp add: nl hx del: ms.simps)
    then show ?thesis by blast
  next
    case False
    with Cons.prems have "\<forall>x \<in> set m. isWordCh x" "isLetter (last m)" by simp_all
    from Cons.IH [OF this(1) False this(2) Cons.prems(4) n', of False]
    obtain ys where "concat (map (ms (Cls isLetter)) (iter (ms (Cls isWordCh)) n' (False, m @ rest)))
        = (False, rest) # ys" by blast
    then show ?thesis unfolding step by (simp del: ms.simps)
  qed
qed

lemma ms_reToken_shape:
  assumes "lettersShape t" and "rest = [] \<or> \<not> isWordCh (hd rest)"
  shows "\<exists>ys. ms reToken (b, t @ rest) = (False, rest) # ys"
proof -
  from assms(1) obtain c m where t: "t = c # m" by (cases t) (auto simp: lettersShape_def)
  with assms(1) have c: "isLetter c" by (simp add: lettersShape_def)
  let ?X = "concat (map (ms (Cls isLetter)) (iter (ms (Cls isWordCh)) (length (m @ rest)) (False, m @ rest)))"
  have e: "ms reToken (b, t @ rest)
      = filter (\<lambda>st'. length (snd st') < length (m @ rest)) ?X @ [(False, m @ rest)]"
    using c by (simp add: reToken_def t)
  show ?thesis
  proof (cases "m = []")
    case True
    from assms(2) have "ms (Cls isLetter) (False, rest) = []"
      by (cases rest) (auto simp: isWordCh_def)
    moreover have "iter (ms (Cls isWordCh)) (length rest) (False, rest) = [(False, rest)]"
      using assms(2) by (rule iter_Cls_stop)
    ultimately show ?thesis using e True by simp
  next
    case False
    from assms(1) t False have "\<forall>x \<in> set m. isWordCh x" "isLetter (last m)"
      by (simp_all add: lettersShape_def)
    from token_tail [OF this(1) False this(2) assms(2) order_refl, of False]
    obtain ys where "?X = (False, rest) # ys" by blast
    with e False show ?thesis by simp
  qed
qed

lemma matchLen_reToken:
  assumes "lettersShape t" and "rest = [] \<or> \<not> isWordCh (hd rest)"
  shows "matchLen reToken (b, t @ rest) = Some (length t)"
proof -
  from ms_reToken_shape [OF assms, of b] obtain ys where "ms reToken (b, t @ rest) = (False, rest) # ys"
    by blast
  then show ?thesis by (simp add: matchLen_def)
qed

lemma matchAll_token:
  assumes "lettersShape t" and "rest = [] \<or> \<not> isWordCh (hd rest)"
  shows "matchAll reToken b (t @ rest) = t # matchAll reToken False rest"
proof -
  from assms(1) obtain c m where t: "t = c # m" by (cases t) (auto simp: lettersShape_def)
  have "matchLen reToken (b, c # m @ rest) = Some (Suc (length m))"
    using matchLen_reToken [OF assms, of b] by (simp add: t)
  then show ?thesis by (simp add: t)
qed

lemma matchAll_skip:
  "\<not> isLetter c \<Longrightarrow> matchAll reToken b (c # rest) = matchAll reToken False rest"
  by (simp add: matchLen_def reToken_def)

lemma matchLen_reToken_Nil: "matchLen reToken (b, []) = None"
  by (simp add: matchLen_def reToken_def)

lemma matchAll_Nil: "matchAll reToken b [] = []"
  by (subst matchAll.simps) (simp add: matchLen_reToken_Nil)

lemma matchAll_join:
  "\<forall>t \<in> set ts. lettersShape t \<Longrightarrow> matchAll reToken b (joinWith [32] ts) = ts"
proof (induction "[32::nat]" ts arbitrary: b rule: joinWith.induct)
  case 1
  show ?case by (simp add: matchLen_reToken_Nil)
next
  case (2 x)
  then have "lettersShape x" by simp
  from matchAll_token [OF this, of "[]" b] show ?case by (simp add: matchLen_reToken_Nil)
next
  case (3 x y ys)
  from "3.prems" have x: "lettersShape x" and r: "\<forall>t \<in> set (y # ys). lettersShape t" by simp_all
  have s: "\<not> isWordCh 32" "\<not> isLetter 32"
    by (simp_all add: isWordCh_def isLetter_def isUpperAZ_def isLowerAZ_def)
  have "matchAll reToken b (x @ 32 # joinWith [32] (y # ys))
      = x # matchAll reToken False (32 # joinWith [32] (y # ys))"
    by (rule matchAll_token [OF x]) (simp add: s)
  also have "\<dots> = x # matchAll reToken False (joinWith [32] (y # ys))"
    by (simp only: matchAll_skip [OF s(2)])
  also have "\<dots> = x # y # ys" using "3.hyps" [OF r] by simp
  finally show ?case by simp
qed


lemma localExtractLoop_eq:
  "localExtractLoop toks seen out
     = uniqueStableLoop (filter isLikelyEnglishWord (map normalizeWord toks)) seen out"
proof (induction toks arbitrary: seen out)
  case Nil
  show ?case by simp
next
  case (Cons tok toks)
  have e: "\<not> isLikelyEnglishWord []" by (simp add: isLikelyEnglishWord_def)
  show ?case
    by (cases "normalizeWord tok = []") (simp_all add: Let_def Cons.IH e fun_upd_def)
qed

lemma localExtractWords_eq:
  "localExtractWords t
     = uniqueStable (filter isLikelyEnglishWord (map normalizeWord (matchAll reToken True t)))"
  by (simp add: localExtractWords_def localExtractLoop_eq uniqueStable_def)

lemma isSpace_toLowerCU: "isSpace (toLowerCU c) = isSpace c"
  by (auto simp: toLowerCU_def isSpace_def isUpperAZ_def)

lemma trim_toLowerCase: "trim (toLowerCase s) = toLowerCase (trim s)"
proof -
  have c: "isSpace \<circ> toLowerCU = isSpace" by (auto simp: isSpace_toLowerCU)
  show ?thesis
    by (simp add: trim_def toLowerCase_def dropWhile_map rev_map c)
qed

lemma toLowerCase_idem: "toLowerCase (toLowerCase s) = toLowerCase s"
  by (auto simp: toLowerCase_def toLowerCU_def isUpperAZ_def)

lemma normalizeWord_idem: "normalizeWord (normalizeWord s) = normalizeWord s"
  by (simp add: normalizeWord_def trim_toLowerCase toLowerCase_idem)

lemma localExtractWords_member:
  assumes "w \<in> set (localExtractWords t)"
  shows "isLikelyEnglishWord w" and "normalizeWord w = w" and "trim w = w" and "toLowerCase w = w"
    and "strictWordSpec w" and "lettersShape w"
proof -
  from assms obtain tok where w: "w = normalizeWord tok" and v: "isLikelyEnglishWord w"
    by (auto simp: localExtractWords_eq set_uniqueStable)
  show "isLikelyEnglishWord w" by (rule v)
  show n: "normalizeWord w = w" by (simp add: w normalizeWord_idem)
  show t: "trim w = w" by (simp add: w normalizeWord_def trim_toLowerCase)
  show "toLowerCase w = w" by (simp add: w normalizeWord_def toLowerCase_idem)
  from v t show s: "strictWordSpec w" by (simp add: isLikelyEnglishWord_spec)
  then show "lettersShape w" by (simp add: strictWordSpec_def)
qed

lemma localExtractWords_fixpoint:
  "localExtractWords (joinWith [32] (localExtractWords t)) = localExtractWords t"
proof -
  let ?ts = "localExtractWords t"
  have 1: "matchAll reToken True (joinWith [32] ?ts) = ?ts"
    by (rule matchAll_join) (simp add: localExtractWords_member)
  have 2: "map normalizeWord ?ts = ?ts"
    by (rule map_idI) (simp add: localExtractWords_member)
  have 3: "filter isLikelyEnglishWord ?ts = ?ts"
    by (simp add: localExtractWords_member)
  have "distinct ?ts" by (simp add: localExtractWords_eq distinct_uniqueStable)
  then have 4: "uniqueStable ?ts = ?ts"
    by (simp add: uniqueStable_rev_remdups distinct_remdups_id)
  show ?thesis
    by (subst localExtractWords_eq) (simp only: 1 2 3 4)
qed

text \<open>
  C9. \<open>localExtractWords\<close> is a total function of its text. Every word it yields
  satisfies the strict word rule and is in lower case; the words are pairwise distinct and
  come in first-seen order of the normalised tokens that pass the predicate; and
  tokenizing the words joined by single spaces yields the same words again.
\<close>

theorem localExtractWords_idempotent:
  "(\<forall>w \<in> set (localExtractWords t). strictWordSpec w \<and> isLikelyEnglishWord w \<and> toLowerCase w = w)
   \<and> distinct (localExtractWords t)
   \<and> localExtractWords t
       = firstSeen (filter isLikelyEnglishWord (map normalizeWord (matchAll reToken True t)))
   \<and> localExtractWords (joinWith [32] (localExtractWords t)) = localExtractWords t"
proof (intro conjI ballI)
  fix w assume "w \<in> set (localExtractWords t)"
  then show "strictWordSpec w" "isLikelyEnglishWord w" "toLowerCase w = w"
    by (rule localExtractWords_member)+
next
  show "distinct (localExtractWords t)" by (simp add: localExtractWords_eq distinct_uniqueStable)
next
  show "localExtractWords t
       = firstSeen (filter isLikelyEnglishWord (map normalizeWord (matchAll reToken True t)))"
    by (simp add: localExtractWords_eq uniqueStable_firstSeen)
next
  show "localExtractWords (joinWith [32] (localExtractWords t)) = localExtractWords t"
    by (rule localExtractWords_fixpoint)
qed

text \<open>
  A text with a repeated word in another case, a doubled hyphen and a digit: three words
  come out, and tokenizing their space-joined text gives the same three.
\<close>

theorem localExtractWords_idempotent_witness:
  "localExtractWords (js ''Ice-cream, it's ICE-CREAM; x--y 4u!'')
     = [js ''ice-cream'', js ''it's'', js ''u'']
   \<and> joinWith [32] (localExtractWords (js ''Ice-cream, it's ICE-CREAM; x--y 4u!'')) = js ''ice-cream it's u''
   \<and> localExtractWords (js ''ice-cream it's u'') = [js ''ice-cream'', js ''it's'', js ''u'']
   \<and> distinct (localExtractWords (js ''Ice-cream, it's ICE-CREAM; x--y 4u!''))"
proof -
  have 1: "localExtractWords (js ''Ice-cream, it's ICE-CREAM; x--y 4u!'')
     = [js ''ice-cream'', js ''it's'', js ''u'']"
    by (simp add: ev)
  have 2: "joinWith [32] [js ''ice-cream'', js ''it's'', js ''u''] = js ''ice-cream it's u''"
    by (simp add: js_def)
  note T = localExtractWords_idempotent [of "js ''Ice-cream, it's ICE-CREAM; x--y 4u!''"]
  from T have d: "distinct (localExtractWords (js ''Ice-cream, it's ICE-CREAM; x--y 4u!''))"
    by blast
  from T have "localExtractWords (joinWith [32] (localExtractWords (js ''Ice-cream, it's ICE-CREAM; x--y 4u!'')))
      = localExtractWords (js ''Ice-cream, it's ICE-CREAM; x--y 4u!'')"
    by blast
  then have 3: "localExtractWords (js ''ice-cream it's u'') = [js ''ice-cream'', js ''it's'', js ''u'']"
    unfolding 1 2 .
  show ?thesis
  proof (intro conjI)
    show "localExtractWords (js ''Ice-cream, it's ICE-CREAM; x--y 4u!'')
        = [js ''ice-cream'', js ''it's'', js ''u'']" by (rule 1)
    show "joinWith [32] (localExtractWords (js ''Ice-cream, it's ICE-CREAM; x--y 4u!''))
        = js ''ice-cream it's u''" unfolding 1 by (rule 2)
    show "localExtractWords (js ''ice-cream it's u'') = [js ''ice-cream'', js ''it's'', js ''u'']"
      by (rule 3)
    show "distinct (localExtractWords (js ''Ice-cream, it's ICE-CREAM; x--y 4u!''))" by (rule d)
  qed
qed

end
